theory Spec2Isabelle
  imports Main
begin

unbundle bit_operations_syntax

section \<open>Signals with a current and a next value\<close>

text \<open>
  The circuits of the repository are written against a hardware-description layer
  (\<^verbatim>\<open>from pygmyhdl import *\<close>) whose code is not among the repository's sources. Its
  signal store and its scheduling rules are taken from the specification; the circuits
  themselves are translated from their sources.
\<close>

text \<open>Modelled from the spec: the Signal store of the kernel (not under src/). Every
  Signal has a current value, visible to readers, and a next value, the value scheduled
  to become current.\<close>
record 's sigs =
  val :: "'s \<Rightarrow> int"
  nxt :: "'s \<Rightarrow> int"

text \<open>Modelled from the spec: a Value of width \<open>w\<close> built from an integer; arithmetic
  wraps around at \<open>2 ^ w\<close> (a Bus of the kernel, not under src/).\<close>
definition wrap :: "nat \<Rightarrow> int \<Rightarrow> int" where
  "wrap w v = v mod 2 ^ w"

text \<open>Modelled from the spec: \<open>scheduleNext\<close> of the kernel (the assignment
  \<^verbatim>\<open>s.next = v\<close> of the sources) records a candidate next value and leaves the current
  value alone.\<close>
definition set_next :: "'s \<Rightarrow> int \<Rightarrow> 's sigs \<Rightarrow> 's sigs" where
  "set_next s v st = st\<lparr>nxt := (nxt st)(s := v)\<rparr>"

text \<open>Modelled from the spec: a Logic Block of the kernel. The body of a block reads the
  store and yields the assignments \<^verbatim>\<open>s.next = v\<close> it performs, in program order.\<close>
type_synonym 's block = "'s sigs \<Rightarrow> ('s \<times> int) list"

text \<open>Modelled from the spec: evaluating one block schedules its assignments one after
  the other (the last writer of a block wins).\<close>
definition exec_block :: "'s block \<Rightarrow> 's sigs \<Rightarrow> 's sigs" where
  "exec_block b st = fold (\<lambda>(s, v). set_next s v) (b st) st"

text \<open>Modelled from the spec: one evaluation round runs the blocks in the order given.\<close>
definition run_blocks :: "'s block list \<Rightarrow> 's sigs \<Rightarrow> 's sigs" where
  "run_blocks bs st = fold exec_block bs st"

text \<open>Modelled from the spec: the assignments performed during one evaluation round, each
  block being evaluated on the store its predecessors left.\<close>
fun round_writes :: "'s block list \<Rightarrow> 's sigs \<Rightarrow> ('s \<times> int) list" where
  "round_writes [] st = []"
| "round_writes (b # bs) st = b st @ round_writes bs (exec_block b st)"

text \<open>Modelled from the spec: \<open>commit\<close> of the kernel moves every scheduled next value
  into the current value, for all Signals together.\<close>
definition commit :: "'s sigs \<Rightarrow> 's sigs" where
  "commit st = st\<lparr>val := nxt st\<rparr>"

text \<open>Modelled from the spec: a clock edge of the Scheduler. All sequential blocks bound to
  the edge are evaluated, then their scheduled values are committed together.\<close>
definition posedge :: "'s block list \<Rightarrow> 's sigs \<Rightarrow> 's sigs" where
  "posedge bs st = commit (run_blocks bs st)"

text \<open>Modelled from the spec: a block reads current values only when its assignments are
  determined by the current values of the store.\<close>
definition reads_current_only :: "'s block \<Rightarrow> bool" where
  "reads_current_only b = (\<forall>st st'. val st = val st' \<longrightarrow> b st = b st')"

text \<open>Modelled from the spec: the stimulus boundary. A test bench drives an input Signal
  between clock edges (\<^verbatim>\<open>inputs.next = v\<close> followed by a delay), so the value is current
  when the next edge arrives.\<close>
definition drive :: "'s \<Rightarrow> int \<Rightarrow> 's sigs \<Rightarrow> 's sigs" where
  "drive s v st = st\<lparr>val := (val st)(s := v), nxt := (nxt st)(s := v)\<rparr>"

text \<open>Modelled from the spec: the store after elaboration, every Signal holding its initial
  value in both slots.\<close>
definition power_up :: "('s \<Rightarrow> int) \<Rightarrow> 's sigs" where
  "power_up init = \<lparr>val = init, nxt = init\<rparr>"

text \<open>Modelled from the spec: the fixed-point settle of the Scheduler. The full set of
  combinational blocks is evaluated and committed, again and again, until no current value
  of the design's Signals changes; when the bounded iteration count \<open>fuel\<close> is
  exceeded the run fails with \<open>NoFixedPoint\<close>, here \<open>None\<close>.\<close>
fun settle :: "nat \<Rightarrow> 's list \<Rightarrow> 's block list \<Rightarrow> 's sigs \<Rightarrow> 's sigs option" where
  "settle 0 sigs bs st = None"
| "settle (Suc fuel) sigs bs st =
     (let st' = commit (run_blocks bs st)
      in if list_all (\<lambda>s. val st' s = val st s) sigs then Some st'
         else settle fuel sigs bs st')"

text \<open>Modelled from the spec: a Module owns sequential and combinational Logic Blocks.\<close>
record 's chunk =
  seq_blocks :: "'s block list"
  comb_blocks :: "'s block list"

text \<open>Modelled from the spec: the start of a simulation; the combinational blocks settle
  on the initial values.\<close>
definition sim_start :: "nat \<Rightarrow> 's list \<Rightarrow> 's chunk \<Rightarrow> ('s \<Rightarrow> int) \<Rightarrow> 's sigs option" where
  "sim_start fuel sigs ch init = settle fuel sigs (comb_blocks ch) (power_up init)"

text \<open>Modelled from the spec: one clock cycle; the sequential blocks commit at the rising
  edge, then the combinational blocks settle before the next edge is processed.\<close>
definition clock_cycle :: "nat \<Rightarrow> 's list \<Rightarrow> 's chunk \<Rightarrow> 's sigs \<Rightarrow> 's sigs option" where
  "clock_cycle fuel sigs ch st = settle fuel sigs (comb_blocks ch) (posedge (seq_blocks ch) st)"

text \<open>Modelled from the spec: \<^verbatim>\<open>clk_sim(clk, num_cycles)\<close> of the kernel applies the
  given number of clock pulses.\<close>
fun clk_sim :: "nat \<Rightarrow> 's list \<Rightarrow> 's chunk \<Rightarrow> 's sigs \<Rightarrow> nat \<Rightarrow> 's sigs option" where
  "clk_sim fuel sigs ch st 0 = Some st"
| "clk_sim fuel sigs ch st (Suc num_cycles) =
     (case clk_sim fuel sigs ch st num_cycles of
        None \<Rightarrow> None
      | Some st' \<Rightarrow> clock_cycle fuel sigs ch st')"

text \<open>Modelled from the spec: a Bus of width \<open>n\<close> is composed of \<open>n\<close> single-bit
  Signals (\<^verbatim>\<open>bus.i[k]\<close>, \<^verbatim>\<open>bus.o[k]\<close>); its composite value is read off its bits.\<close>
fun bus_val :: "(nat \<Rightarrow> 's) \<Rightarrow> nat \<Rightarrow> 's sigs \<Rightarrow> int" where
  "bus_val bus 0 st = 0"
| "bus_val bus (Suc n) st = bus_val bus n st + val st (bus n) * 2 ^ n"

text \<open>Modelled from the spec: bit \<open>k\<close> of an integer value.\<close>
definition bit_of :: "int \<Rightarrow> nat \<Rightarrow> int" where
  "bit_of x k = (x div 2 ^ k) mod 2"

text \<open>Modelled from the spec: a test bench driving a whole Bus drives each of its bits.\<close>
definition drive_bus :: "(nat \<Rightarrow> 's) \<Rightarrow> nat \<Rightarrow> int \<Rightarrow> 's sigs \<Rightarrow> 's sigs" where
  "drive_bus bus n x st = fold (\<lambda>k. drive (bus k) (bit_of x k)) [0..<n] st"

section \<open>Adder, counter and blinker (src/2/blinker.py)\<close>

definition dff :: "'s \<Rightarrow> 's \<Rightarrow> 's block" where
  "dff d_i q_o st = [(q_o, val st d_i)]"

text \<open>\<^verbatim>\<open>for k in range(len(d_i))\<close>: one flip-flop per bit; \<open>n\<close> is \<^verbatim>\<open>len(d_i)\<close>.\<close>
definition register :: "(nat \<Rightarrow> 's) \<Rightarrow> (nat \<Rightarrow> 's) \<Rightarrow> nat \<Rightarrow> 's block list" where
  "register d_i q_o n = map (\<lambda>k. dff (d_i k) (q_o k)) [0..<n]"

definition full_adder_bit :: "'s \<Rightarrow> 's \<Rightarrow> 's \<Rightarrow> 's \<Rightarrow> 's \<Rightarrow> 's block" where
  "full_adder_bit a_i b_i c_i s_o c_o st =
     [(s_o, val st a_i XOR val st b_i XOR val st c_i),
      (c_o, (val st a_i AND val st b_i) OR (val st a_i AND val st c_i)
              OR (val st b_i AND val st c_i))]"

text \<open>The carry bus \<open>c\<close> has one bit more than the adder has stages (\<open>n\<close> is
  \<^verbatim>\<open>len(a_i)\<close>); \<^verbatim>\<open>c.i[0] = 0\<close> ties the carry input of the first stage to 0, modelled
  as a constant driver of that bit.\<close>
definition adder ::
  "(nat \<Rightarrow> 's) \<Rightarrow> (nat \<Rightarrow> 's) \<Rightarrow> (nat \<Rightarrow> 's) \<Rightarrow> (nat \<Rightarrow> 's) \<Rightarrow> nat \<Rightarrow> 's block list" where
  "adder a_i b_i s_o c n =
     (\<lambda>st. [(c 0, 0)]) #
     map (\<lambda>k. full_adder_bit (a_i k) (b_i k) (c k) (s_o k) (c (Suc k))) [0..<n]"

text \<open>\<^verbatim>\<open>one\<close> and \<^verbatim>\<open>next_cnt\<close> are the buses the chunk declares; \<open>len\<close> is the \<^verbatim>\<open>length\<close> of the source,
  \<^verbatim>\<open>len(cnt_o)\<close>.\<close>
definition counter ::
  "(nat \<Rightarrow> 's) \<Rightarrow> (nat \<Rightarrow> 's) \<Rightarrow> (nat \<Rightarrow> 's) \<Rightarrow> (nat \<Rightarrow> 's) \<Rightarrow> nat \<Rightarrow> 's chunk" where
  "counter cnt_o one next_cnt c len =
     \<lparr>seq_blocks = register next_cnt cnt_o len,
      comb_blocks = adder one cnt_o next_cnt c len\<rparr>"

definition blinker_output_logic :: "'s \<Rightarrow> (nat \<Rightarrow> 's) \<Rightarrow> nat \<Rightarrow> 's block" where
  "blinker_output_logic led_o cnt len st = [(led_o, val st (cnt (len - 1)))]"

definition blinker ::
  "'s \<Rightarrow> (nat \<Rightarrow> 's) \<Rightarrow> (nat \<Rightarrow> 's) \<Rightarrow> (nat \<Rightarrow> 's) \<Rightarrow> (nat \<Rightarrow> 's) \<Rightarrow> nat \<Rightarrow> 's chunk" where
  "blinker led_o cnt one next_cnt c len =
     \<lparr>seq_blocks = seq_blocks (counter cnt one next_cnt c len),
      comb_blocks = comb_blocks (counter cnt one next_cnt c len)
                    @ [blinker_output_logic led_o cnt len]\<rparr>"

text \<open>The Signals of an adder simulated on its own.\<close>
datatype asig = A_i nat | B_i nat | S_o nat | Carry nat

definition adder_sigs :: "nat \<Rightarrow> asig list" where
  "adder_sigs n = map A_i [0..<n] @ map B_i [0..<n] @ map S_o [0..<n] @ map Carry [0..<Suc n]"

text \<open>The inputs \<open>a\<close> and \<open>b\<close> are driven onto the input buses, then the stages settle.\<close>
definition adder_sim :: "nat \<Rightarrow> nat \<Rightarrow> int \<Rightarrow> int \<Rightarrow> asig sigs \<Rightarrow> asig sigs option" where
  "adder_sim fuel n a b st =
     settle fuel (adder_sigs n) (adder A_i B_i S_o Carry n)
       (drive_bus A_i n a (drive_bus B_i n b st))"

text \<open>The Signals of the blinker: \<^verbatim>\<open>led\<close>, \<^verbatim>\<open>cnt\<close>, and the buses of the counter and of
  its adder.\<close>
datatype bsig = Led_o | Cnt nat | One nat | Next_cnt nat | Cry nat

definition blinker_sigs :: "nat \<Rightarrow> bsig list" where
  "blinker_sigs len =
     Led_o # map Cnt [0..<len] @ map One [0..<len] @ map Next_cnt [0..<len]
     @ map Cry [0..<Suc len]"

text \<open>\<^verbatim>\<open>one = Bus(length, init_val=1)\<close>; every other Signal starts at 0.\<close>
definition blinker_init :: "bsig \<Rightarrow> int" where
  "blinker_init s = (case s of One k \<Rightarrow> bit_of 1 k | _ \<Rightarrow> 0)"

text \<open>\<^verbatim>\<open>blinker(clk, led, length)\<close> followed by \<^verbatim>\<open>clk_sim(clk, num_cycles)\<close>.\<close>
definition blinker_sim :: "nat \<Rightarrow> nat \<Rightarrow> nat \<Rightarrow> bsig sigs option" where
  "blinker_sim fuel len num_cycles =
     (case sim_start fuel (blinker_sigs len) (blinker Led_o Cnt One Next_cnt Cry len)
             blinker_init of
        None \<Rightarrow> None
      | Some st \<Rightarrow>
          clk_sim fuel (blinker_sigs len) (blinker Led_o Cnt One Next_cnt Cry len)
            st num_cycles)"

section \<open>The ramp (src/3/pwm.py)\<close>

text \<open>\<^verbatim>\<open>delta = Bus(len(ramp_o))\<close>; \<open>w\<close> is \<^verbatim>\<open>len(ramp_o)\<close> and \<^verbatim>\<open>ramp_o.max\<close> is
  \<open>2 ^ w\<close>.\<close>
definition ramp :: "'s \<Rightarrow> 's \<Rightarrow> nat \<Rightarrow> 's block" where
  "ramp ramp_o delta w st =
     [(ramp_o, wrap w (val st ramp_o + val st delta))]
     @ (if val st ramp_o = 1 then [(delta, wrap w 1)]
        else if val st ramp_o = 2 ^ w - 2 then [(delta, wrap w (- 1))]
        else if val st delta = 0 then [(delta, wrap w 1), (ramp_o, wrap w 1)]
        else [])"

datatype rsig = Ramp_o | Delta

text \<open>The ramp after the given number of clock edges, from the state after configuration
  (both registers zero).\<close>
fun ramp_sim :: "nat \<Rightarrow> nat \<Rightarrow> rsig sigs" where
  "ramp_sim w 0 = power_up (\<lambda>s. 0)"
| "ramp_sim w (Suc n) = posedge [ramp Ramp_o Delta w] (ramp_sim w n)"

section \<open>The memories and the reset generator (src/4/block\_ram.py)\<close>

text \<open>
  \<^verbatim>\<open>mem\<close> is a list of \<open>2 ^ len(addr_i)\<close> buses of the width \<open>dw\<close> of \<^verbatim>\<open>data_i\<close>,
  modelled as the family \<open>mem\<close> of their names; \<open>ow\<close> is the width of \<^verbatim>\<open>data_o\<close>.
  The index \<^verbatim>\<open>addr_i.val\<close> is the current value of the address bus, which its width
  keeps within the list.
\<close>
definition ram :: "'s \<Rightarrow> 's \<Rightarrow> 's \<Rightarrow> 's \<Rightarrow> (nat \<Rightarrow> 's) \<Rightarrow> nat \<Rightarrow> nat \<Rightarrow> 's block" where
  "ram wr_i addr_i data_i data_o mem dw ow st =
     (if val st wr_i \<noteq> 0
      then [(mem (nat (val st addr_i)), wrap dw (val st data_i))]
      else [(data_o, wrap ow (val st (mem (nat (val st addr_i)))))])"

definition simpler_ram :: "'s \<Rightarrow> 's \<Rightarrow> 's \<Rightarrow> 's \<Rightarrow> (nat \<Rightarrow> 's) \<Rightarrow> nat \<Rightarrow> nat \<Rightarrow> 's block" where
  "simpler_ram wr_i addr_i data_i data_o mem dw ow st =
     (if val st wr_i \<noteq> 0
      then [(mem (nat (val st addr_i)), wrap dw (val st data_i))]
      else [])
     @ [(data_o, wrap ow (val st (mem (nat (val st addr_i)))))]"

definition dualport_ram ::
  "'s \<Rightarrow> 's \<Rightarrow> 's \<Rightarrow> 's \<Rightarrow> 's \<Rightarrow> (nat \<Rightarrow> 's) \<Rightarrow> nat \<Rightarrow> nat \<Rightarrow> 's block" where
  "dualport_ram wr_i wr_addr_i rd_addr_i data_i data_o mem dw ow st =
     (if val st wr_i \<noteq> 0
      then [(mem (nat (val st wr_addr_i)), wrap dw (val st data_i))]
      else [])
     @ [(data_o, wrap ow (val st (mem (nat (val st rd_addr_i)))))]"

text \<open>\<^verbatim>\<open>cntr = Bus(1)\<close>; the increment reads the next slot of the counter
  (\<^verbatim>\<open>cntr.next + 1\<close>).\<close>
definition gen_reset :: "'s \<Rightarrow> 's \<Rightarrow> 's block" where
  "gen_reset cntr reset_o st =
     (if val st cntr < 1
      then [(cntr, wrap 1 (nxt st cntr + 1)), (reset_o, 1)]
      else [(reset_o, 0)])"

text \<open>The Signals of the single-port memories and of the dual-port memory.\<close>
datatype msig = Wr_i | Addr_i | Data_i | Data_o | Mem nat

datatype dpsig = Dp_wr_i | Wr_addr_i | Rd_addr_i | Dp_data_i | Dp_data_o | Dp_mem nat

text \<open>One clock cycle of a test bench of a single-port memory: it drives \<^verbatim>\<open>wr_i\<close>,
  \<^verbatim>\<open>addr_i\<close> and \<^verbatim>\<open>data_i\<close>, then pulses the clock. The address bus has width \<open>aw\<close>.\<close>
definition ram_cycle ::
  "msig block \<Rightarrow> nat \<Rightarrow> nat \<Rightarrow> int \<Rightarrow> int \<Rightarrow> int \<Rightarrow> msig sigs \<Rightarrow> msig sigs" where
  "ram_cycle logic aw dw wr addr data st =
     posedge [logic]
       (drive Wr_i wr (drive Addr_i (wrap aw addr) (drive Data_i (wrap dw data) st)))"

text \<open>One clock cycle of \<^verbatim>\<open>ram_test_bench\<close>: it drives \<^verbatim>\<open>wr_addr\<close>, \<^verbatim>\<open>data_i\<close>,
  \<^verbatim>\<open>wr\<close> and \<^verbatim>\<open>rd_addr\<close>, then pulses the clock.\<close>
definition dualport_cycle ::
  "nat \<Rightarrow> nat \<Rightarrow> nat \<Rightarrow> int \<Rightarrow> int \<Rightarrow> int \<Rightarrow> int \<Rightarrow> dpsig sigs \<Rightarrow> dpsig sigs" where
  "dualport_cycle aw dw ow wr wr_addr rd_addr data st =
     posedge [dualport_ram Dp_wr_i Wr_addr_i Rd_addr_i Dp_data_i Dp_data_o Dp_mem dw ow]
       (drive Wr_addr_i (wrap aw wr_addr) (drive Dp_data_i (wrap dw data)
         (drive Dp_wr_i wr (drive Rd_addr_i (wrap aw rd_addr) st))))"

datatype gsig = Cntr | Reset_o

text \<open>The reset generator after the given number of rising clock edges from power-up.\<close>
fun gen_reset_sim :: "nat \<Rightarrow> gsig sigs" where
  "gen_reset_sim 0 = power_up (\<lambda>s. 0)"
| "gen_reset_sim (Suc n) = posedge [gen_reset Cntr Reset_o] (gen_reset_sim n)"

section \<open>The debouncer (src/5/fsm.py)\<close>

text \<open>
  The chunk \<^verbatim>\<open>debouncer(clk_i, button_i, button_o, debounce_time)\<close> receives the
  Signals of its ports and declares \<^verbatim>\<open>debounce_cnt\<close> and \<^verbatim>\<open>prev_button\<close>; the model
  receives the names of all four. The counter is a Bus of width
  \<^verbatim>\<open>int(ceil(log2(debounce_time + 1)))\<close>, which the model takes as the parameter \<open>w\<close>.
\<close>

definition debouncer_next_state_logic ::
  "'s \<Rightarrow> 's \<Rightarrow> 's \<Rightarrow> nat \<Rightarrow> nat \<Rightarrow> 's block" where
  "debouncer_next_state_logic button_i debounce_cnt prev_button w debounce_time st =
     (if val st button_i = val st prev_button then
        (if val st debounce_cnt \<noteq> 0
         then [(debounce_cnt, wrap w (val st debounce_cnt - 1))]
         else [])
      else [(debounce_cnt, wrap w (int debounce_time))])
     @ [(prev_button, val st button_i)]"

definition debouncer_output_logic :: "'s \<Rightarrow> 's \<Rightarrow> 's \<Rightarrow> 's block" where
  "debouncer_output_logic button_o debounce_cnt prev_button st =
     (if val st debounce_cnt = 0 then [(button_o, val st prev_button)] else [])"

text \<open>The two sequential blocks of the chunk, in the order of their declaration.\<close>
definition debouncer :: "'s \<Rightarrow> 's \<Rightarrow> 's \<Rightarrow> 's \<Rightarrow> nat \<Rightarrow> nat \<Rightarrow> 's block list" where
  "debouncer button_i button_o debounce_cnt prev_button w debounce_time =
     [debouncer_next_state_logic button_i debounce_cnt prev_button w debounce_time,
      debouncer_output_logic button_o debounce_cnt prev_button]"

text \<open>The Signals of a debouncer simulated on its own.\<close>
datatype dsig = Button_i | Button_o | Debounce_cnt | Prev_button

definition debouncer_blocks :: "nat \<Rightarrow> nat \<Rightarrow> dsig block list" where
  "debouncer_blocks w debounce_time =
     debouncer Button_i Button_o Debounce_cnt Prev_button w debounce_time"

text \<open>The debouncer after the given number of clock edges from power-up (every Signal 0);
  \<open>inp n\<close> is the raw button value the test bench drives before edge \<open>n\<close>, the edges
  being counted from 0.\<close>
fun debouncer_sim :: "nat \<Rightarrow> nat \<Rightarrow> (nat \<Rightarrow> int) \<Rightarrow> nat \<Rightarrow> dsig sigs" where
  "debouncer_sim w debounce_time inp 0 = power_up (\<lambda>s. 0)"
| "debouncer_sim w debounce_time inp (Suc n) =
     posedge (debouncer_blocks w debounce_time)
       (drive Button_i (inp n) (debouncer_sim w debounce_time inp n))"

text \<open>A raw input that starts at \<open>v\<close>, toggles at every cycle for \<open>k\<close> cycles and then
  holds steady.\<close>
definition bouncing :: "int \<Rightarrow> nat \<Rightarrow> nat \<Rightarrow> int" where
  "bouncing v k n = (if even (min n k) then v else 1 - v)"

section \<open>The classic state machine (src/5/fsm.py)\<close>

text \<open>Modelled from the spec: \<^verbatim>\<open>State('A', 'B', 'C', 'D')\<close> is the kernel's (not under
  src/); the labels are bound to a fixed-width encoding and compared as values. The
  encoding chosen here numbers the labels in the order of their declaration.\<close>
definition s_A :: int where "s_A = 0"

definition s_B :: int where "s_B = 1"

definition s_C :: int where "s_C = 2"

definition s_D :: int where "s_D = 3"

text \<open>\<open>n\<close> is \<^verbatim>\<open>len(inputs_i)\<close>, the width of \<^verbatim>\<open>prev_inputs\<close>, \<^verbatim>\<open>input_chgs\<close> and
  \<^verbatim>\<open>dbnc_inputs\<close>; the debouncers drive \<^verbatim>\<open>dbnc_inputs\<close> bit by bit, and the blocks of
  the state machine read it as a whole. The complement of an \<open>n\<close>-bit value is an
  \<open>n\<close>-bit value.\<close>
definition detect_chg :: "'s \<Rightarrow> (nat \<Rightarrow> 's) \<Rightarrow> 's \<Rightarrow> nat \<Rightarrow> 's block" where
  "detect_chg input_chgs dbnc_inputs prev_inputs n st =
     [(input_chgs, wrap n (bus_val dbnc_inputs n st AND wrap n (NOT (val st prev_inputs))))]"

text \<open>\<^verbatim>\<open>reset_cnt = Bus(2)\<close>, so \<^verbatim>\<open>reset_cnt.max\<close> is \<open>2 ^ 2\<close>; \<^verbatim>\<open>input_chgs[k]\<close> is bit
  \<open>k\<close> of the bus.\<close>
definition classic_fsm_next_state_logic ::
  "'s \<Rightarrow> 's \<Rightarrow> 's \<Rightarrow> 's \<Rightarrow> (nat \<Rightarrow> 's) \<Rightarrow> nat \<Rightarrow> 's block" where
  "classic_fsm_next_state_logic fsm_state reset_cnt input_chgs prev_inputs dbnc_inputs n st =
     (if val st reset_cnt < 2 ^ 2 - 1 then
        [(fsm_state, s_A), (reset_cnt, wrap 2 (val st reset_cnt + 1))]
      else if val st fsm_state = s_A then
        (if bit_of (val st input_chgs) 0 \<noteq> 0 then [(fsm_state, s_B)]
         else if bit_of (val st input_chgs) 1 \<noteq> 0 then [(fsm_state, s_D)]
         else [])
      else if val st fsm_state = s_B then
        (if bit_of (val st input_chgs) 0 \<noteq> 0 then [(fsm_state, s_C)]
         else if bit_of (val st input_chgs) 1 \<noteq> 0 then [(fsm_state, s_A)]
         else [])
      else if val st fsm_state = s_C then
        (if bit_of (val st input_chgs) 0 \<noteq> 0 then [(fsm_state, s_D)]
         else if bit_of (val st input_chgs) 1 \<noteq> 0 then [(fsm_state, s_B)]
         else [])
      else if val st fsm_state = s_D then
        (if bit_of (val st input_chgs) 0 \<noteq> 0 then [(fsm_state, s_A)]
         else if bit_of (val st input_chgs) 1 \<noteq> 0 then [(fsm_state, s_C)]
         else [])
      else [(fsm_state, s_A)])
     @ [(prev_inputs, wrap n (bus_val dbnc_inputs n st))]"

text \<open>\<open>ow\<close> is the width of \<^verbatim>\<open>outputs_o\<close>.\<close>
definition classic_fsm_output_logic :: "'s \<Rightarrow> 's \<Rightarrow> nat \<Rightarrow> 's block" where
  "classic_fsm_output_logic fsm_state outputs_o ow st =
     (if val st fsm_state = s_A then [(outputs_o, wrap ow 1)]
      else if val st fsm_state = s_B then [(outputs_o, wrap ow 2)]
      else if val st fsm_state = s_C then [(outputs_o, wrap ow 4)]
      else if val st fsm_state = s_D then [(outputs_o, wrap ow 8)]
      else [(outputs_o, wrap ow 15)])"

text \<open>The chunk declares \<^verbatim>\<open>fsm_state\<close>, \<^verbatim>\<open>reset_cnt\<close>, \<^verbatim>\<open>prev_inputs\<close>,
  \<^verbatim>\<open>input_chgs\<close> and \<^verbatim>\<open>dbnc_inputs\<close>, and instantiates two debouncers with
  \<^verbatim>\<open>debounce_time = 120000\<close>, whose counters have
  \<^verbatim>\<open>int(ceil(log2(120001)))\<close> = 17 bits; \<open>debounce_cnt k\<close> and \<open>prev_button k\<close> are the
  Signals debouncer \<open>k\<close> declares.\<close>
definition classic_fsm ::
  "(nat \<Rightarrow> 's) \<Rightarrow> 's \<Rightarrow> 's \<Rightarrow> 's \<Rightarrow> 's \<Rightarrow> 's \<Rightarrow> (nat \<Rightarrow> 's) \<Rightarrow> (nat \<Rightarrow> 's) \<Rightarrow> (nat \<Rightarrow> 's)
     \<Rightarrow> nat \<Rightarrow> nat \<Rightarrow> 's chunk" where
  "classic_fsm inputs_i outputs_o fsm_state reset_cnt prev_inputs input_chgs dbnc_inputs
       debounce_cnt prev_button n ow =
     \<lparr>seq_blocks =
        debouncer (inputs_i 0) (dbnc_inputs 0) (debounce_cnt 0) (prev_button 0) 17 120000
        @ debouncer (inputs_i 1) (dbnc_inputs 1) (debounce_cnt 1) (prev_button 1) 17 120000
        @ [classic_fsm_next_state_logic fsm_state reset_cnt input_chgs prev_inputs
             dbnc_inputs n],
      comb_blocks =
        [detect_chg input_chgs dbnc_inputs prev_inputs n,
         classic_fsm_output_logic fsm_state outputs_o ow]\<rparr>"

text \<open>The Signals of \<^verbatim>\<open>classic_fsm(clk, inputs, outputs)\<close> with \<^verbatim>\<open>inputs = Bus(2)\<close> and
  \<^verbatim>\<open>outputs = Bus(4)\<close>.\<close>
datatype fsig = Inputs nat | Outputs | Fsm_state | Reset_cnt | Prev_inputs | Input_chgs
  | Dbnc_inputs nat | Dbcnt nat | Prev_btn nat

definition fsm_sigs :: "fsig list" where
  "fsm_sigs = [Inputs 0, Inputs 1, Outputs, Fsm_state, Reset_cnt, Prev_inputs, Input_chgs,
     Dbnc_inputs 0, Dbnc_inputs 1, Dbcnt 0, Dbcnt 1, Prev_btn 0, Prev_btn 1]"

definition fsm_design :: "fsig chunk" where
  "fsm_design = classic_fsm Inputs Outputs Fsm_state Reset_cnt Prev_inputs Input_chgs
     Dbnc_inputs Dbcnt Prev_btn 2 4"

text \<open>The state machine after the given number of clock cycles of a test bench like
  \<^verbatim>\<open>fsm_tb\<close>: every Signal starts at 0 (state \<^verbatim>\<open>A\<close>), and before cycle \<open>n\<close> the test
  bench drives \<open>inp n\<close> onto \<^verbatim>\<open>inputs\<close>.\<close>
fun classic_fsm_sim :: "nat \<Rightarrow> (nat \<Rightarrow> int) \<Rightarrow> nat \<Rightarrow> fsig sigs option" where
  "classic_fsm_sim fuel inp 0 = sim_start fuel fsm_sigs fsm_design (\<lambda>s. 0)"
| "classic_fsm_sim fuel inp (Suc n) =
     (case classic_fsm_sim fuel inp n of
        None \<Rightarrow> None
      | Some st \<Rightarrow> clock_cycle fuel fsm_sigs fsm_design (drive_bus Inputs 2 (inp n) st))"

section \<open>Properties of the store\<close>

lemma val_set_next [simp]: "val (set_next s v st) = val st"
  by (simp add: set_next_def)

lemma nxt_set_next [simp]: "nxt (set_next s v st) = (nxt st)(s := v)"
  by (simp add: set_next_def)

lemma val_fold_set_next [simp]:
  "val (fold (\<lambda>(s, v). set_next s v) ws st) = val st"
  by (induction ws arbitrary: st) auto

lemma val_exec_block [simp]: "val (exec_block b st) = val st"
  by (simp add: exec_block_def)

lemma val_run_blocks [simp]: "val (run_blocks bs st) = val st"
  unfolding run_blocks_def by (induction bs arbitrary: st) auto

lemma nxt_fold_set_next:
  "nxt (fold (\<lambda>(s, v). set_next s v) ws st) s =
     (case map_of (rev ws) s of Some v \<Rightarrow> v | None \<Rightarrow> nxt st s)"
proof (induction ws arbitrary: st)
  case Nil
  show ?case by simp
next
  case (Cons p ws)
  obtain t v where p: "p = (t, v)" by (cases p)
  show ?case
    by (simp add: p Cons.IH map_add_def split: option.splits)
qed

lemma nxt_fold_unwritten:
  "s \<notin> fst ` set ws \<Longrightarrow> nxt (fold (\<lambda>(s, v). set_next s v) ws st) s = nxt st s"
  by (induction ws arbitrary: st) auto

lemma nxt_run_blocks_unwritten:
  "s \<notin> fst ` set (round_writes bs st) \<Longrightarrow> nxt (run_blocks bs st) s = nxt st s"
proof (induction bs arbitrary: st)
  case Nil
  show ?case by (simp add: run_blocks_def)
next
  case (Cons b bs)
  from Cons.prems have a: "s \<notin> fst ` set (b st)"
    and r: "s \<notin> fst ` set (round_writes bs (exec_block b st))"
    by auto
  have "nxt (run_blocks (b # bs) st) s = nxt (run_blocks bs (exec_block b st)) s"
    by (simp add: run_blocks_def)
  also have "\<dots> = nxt (exec_block b st) s"
    using Cons.IH [OF r] .
  also have "\<dots> = nxt st s"
    using a by (simp add: exec_block_def nxt_fold_unwritten)
  finally show ?case .
qed

lemmas sim_defs = posedge_def commit_def run_blocks_def exec_block_def drive_def
  set_next_def power_up_def

lemma wrap_id: "0 \<le> v \<Longrightarrow> v < 2 ^ w \<Longrightarrow> wrap w v = v"
  by (simp add: wrap_def)

lemma wrap_wrap [simp]: "wrap w (wrap w v) = wrap w v"
  by (simp add: wrap_def)

lemma wrap_widen:
  assumes "0 \<le> v" and "v < 2 ^ dw" and "dw \<le> ow"
  shows "wrap ow v = v"
proof -
  have "(2::int) ^ dw \<le> 2 ^ ow"
    using assms(3) by (simp add: power_increasing)
  with assms(2) have "v < 2 ^ ow" by linarith
  with assms(1) show ?thesis by (simp add: wrap_def)
qed

section \<open>Simultaneous commit and persistence of the next value\<close>

lemma exec_block_swap:
  assumes "reads_current_only b1" and "reads_current_only b2"
    and "fst ` set (b1 st) \<inter> fst ` set (b2 st) = {}"
  shows "run_blocks [b1, b2] st = run_blocks [b2, b1] st"
proof -
  have r1: "b2 (fold (\<lambda>(s, v). set_next s v) (b1 st) st) = b2 st"
    by (rule assms(2) [unfolded reads_current_only_def, rule_format]) simp
  have r2: "b1 (fold (\<lambda>(s, v). set_next s v) (b2 st) st) = b1 st"
    by (rule assms(1) [unfolded reads_current_only_def, rule_format]) simp
  have d: "map_of (rev (b1 st)) s = None \<or> map_of (rev (b2 st)) s = None" for s
  proof (rule ccontr)
    assume "\<not> ?thesis"
    then have "s \<in> dom (map_of (rev (b1 st)))" and "s \<in> dom (map_of (rev (b2 st)))"
      by auto
    then have "s \<in> fst ` set (b1 st)" and "s \<in> fst ` set (b2 st)"
      by (simp_all add: dom_map_of_conv_image_fst)
    with assms(3) show False by auto
  qed
  have n: "nxt (run_blocks [b1, b2] st) s = nxt (run_blocks [b2, b1] st) s" for s
    using d [of s]
    by (auto simp: run_blocks_def exec_block_def r1 r2 nxt_fold_set_next
        simp del: val_fold_set_next split: option.splits)
  have "nxt (run_blocks [b1, b2] st) = nxt (run_blocks [b2, b1] st)"
    using n by (rule ext)
  moreover have "val (run_blocks [b1, b2] st) = val (run_blocks [b2, b1] st)"
    by simp
  ultimately show ?thesis
    by (simp add: sigs.equality)
qed

lemma debouncer_reads:
  "reads_current_only (debouncer_next_state_logic bi dc pb w T)"
  "reads_current_only (debouncer_output_logic bo dc pb)"
  by (auto simp: reads_current_only_def debouncer_next_state_logic_def
      debouncer_output_logic_def)

text \<open>
  Claim C1. During a clock edge every sequential block is evaluated on a store whose
  current values are the values before the edge, whatever the blocks evaluated before it
  have scheduled; the scheduled values are committed together afterwards, so two blocks
  that read current values and write different Signals give the same store in either
  order. In the debouncer, the block writing \<^verbatim>\<open>button_o\<close> receives the value
  \<^verbatim>\<open>prev_button\<close> held before the edge, although the other block writes
  \<^verbatim>\<open>prev_button\<close> at the same edge, and the two blocks can be evaluated in either
  order.
\<close>
theorem simultaneity:
  "(\<forall>i \<le> length bs. val (run_blocks (take i bs) st) = val st)
   \<and> (reads_current_only b1 \<and> reads_current_only b2
        \<and> fst ` set (b1 st) \<inter> fst ` set (b2 st) = {}
      \<longrightarrow> posedge [b1, b2] st = posedge [b2, b1] st)
   \<and> posedge [debouncer_output_logic Button_o Debounce_cnt Prev_button,
               debouncer_next_state_logic Button_i Debounce_cnt Prev_button w T] sd
       = posedge (debouncer_blocks w T) sd
   \<and> val (posedge (debouncer_blocks w T) sd) Button_o
       = (if val sd Debounce_cnt = 0 then val sd Prev_button else nxt sd Button_o)
   \<and> val (posedge (debouncer_blocks w T) sd) Prev_button = val sd Button_i"
proof -
  have "posedge [b1, b2] st = posedge [b2, b1] st"
    if "reads_current_only b1 \<and> reads_current_only b2
        \<and> fst ` set (b1 st) \<inter> fst ` set (b2 st) = {}"
    using that exec_block_swap [of b1 b2 st] by (simp add: posedge_def)
  moreover have "posedge [debouncer_output_logic Button_o Debounce_cnt Prev_button,
               debouncer_next_state_logic Button_i Debounce_cnt Prev_button w T] sd
       = posedge (debouncer_blocks w T) sd"
    unfolding posedge_def debouncer_blocks_def debouncer_def
    by (rule arg_cong [where f = commit], rule exec_block_swap)
       (auto simp: debouncer_reads debouncer_next_state_logic_def debouncer_output_logic_def)
  moreover have "val (posedge (debouncer_blocks w T) sd) Button_o
       = (if val sd Debounce_cnt = 0 then val sd Prev_button else nxt sd Button_o)"
    by (simp add: debouncer_blocks_def debouncer_def sim_defs
        debouncer_next_state_logic_def debouncer_output_logic_def)
  moreover have "val (posedge (debouncer_blocks w T) sd) Prev_button = val sd Button_i"
    by (simp add: debouncer_blocks_def debouncer_def sim_defs
        debouncer_next_state_logic_def debouncer_output_logic_def)
  ultimately show ?thesis by simp
qed

text \<open>
  Claim C2. A Signal that no block assigns during an evaluation round keeps the next value
  scheduled before, and that value becomes current at the commit; nothing resets it. In
  the ramp, \<^verbatim>\<open>delta\<close> keeps its scheduled next value on a cycle where \<^verbatim>\<open>ramp_o\<close> is
  neither 1 nor \<open>max - 2\<close> and \<^verbatim>\<open>delta\<close> is not 0; in the debouncer, \<^verbatim>\<open>button_o\<close>
  keeps its scheduled next value whenever \<^verbatim>\<open>debounce_cnt\<close> is not 0.
\<close>
theorem next_value_persists:
  "(s \<notin> fst ` set (round_writes bs st)
      \<longrightarrow> nxt (run_blocks bs st) s = nxt st s \<and> val (posedge bs st) s = nxt st s)
   \<and> (val sr Ramp_o \<noteq> 1 \<and> val sr Ramp_o \<noteq> 2 ^ w - 2 \<and> val sr Delta \<noteq> 0
      \<longrightarrow> nxt (run_blocks [ramp Ramp_o Delta w] sr) Delta = nxt sr Delta)
   \<and> (val sd Debounce_cnt \<noteq> 0
      \<longrightarrow> nxt (run_blocks (debouncer_blocks w' T) sd) Button_o = nxt sd Button_o)"
proof -
  have "nxt (run_blocks bs st) s = nxt st s \<and> val (posedge bs st) s = nxt st s"
    if "s \<notin> fst ` set (round_writes bs st)"
    using nxt_run_blocks_unwritten [OF that] by (simp add: posedge_def commit_def)
  moreover have "nxt (run_blocks [ramp Ramp_o Delta w] sr) Delta = nxt sr Delta"
    if "val sr Ramp_o \<noteq> 1 \<and> val sr Ramp_o \<noteq> 2 ^ w - 2 \<and> val sr Delta \<noteq> 0"
    using that by (simp add: sim_defs ramp_def)
  moreover have "nxt (run_blocks (debouncer_blocks w' T) sd) Button_o = nxt sd Button_o"
    if "val sd Debounce_cnt \<noteq> 0"
    using that by (simp add: debouncer_blocks_def debouncer_def sim_defs
        debouncer_next_state_logic_def debouncer_output_logic_def)
  ultimately show ?thesis by blast
qed


theorem simultaneity_witness:
  "val (run_blocks (take 1 (debouncer_blocks 2 3)) (drive Prev_button 1 (power_up (\<lambda>s. 0))))
       Prev_button = 1
   \<and> posedge [debouncer_next_state_logic Button_i Debounce_cnt Prev_button 2 3,
               debouncer_output_logic Button_o Debounce_cnt Prev_button]
        (drive Prev_button 1 (power_up (\<lambda>s. 0)))
     = posedge [debouncer_output_logic Button_o Debounce_cnt Prev_button,
                debouncer_next_state_logic Button_i Debounce_cnt Prev_button 2 3]
        (drive Prev_button 1 (power_up (\<lambda>s. 0)))
   \<and> val (posedge (debouncer_blocks 2 3) (drive Prev_button 1 (power_up (\<lambda>s. 0)))) Button_o = 1
   \<and> val (posedge (debouncer_blocks 2 3) (drive Prev_button 1 (power_up (\<lambda>s. 0)))) Prev_button
       = 0"
proof -
  let ?st = "drive Prev_button 1 (power_up (\<lambda>s. 0))"
  let ?n = "debouncer_next_state_logic Button_i Debounce_cnt Prev_button 2 3"
  let ?o = "debouncer_output_logic Button_o Debounce_cnt Prev_button"
  note t = simultaneity [of "debouncer_blocks 2 3" ?st ?n ?o 2 3 ?st]
  have h: "reads_current_only ?n \<and> reads_current_only ?o
        \<and> fst ` set (?n ?st) \<inter> fst ` set (?o ?st) = {}"
    by (simp add: debouncer_reads)
       (simp add: debouncer_next_state_logic_def debouncer_output_logic_def drive_def
          power_up_def)
  have l: "1 \<le> length (debouncer_blocks 2 3)"
    by (simp add: debouncer_blocks_def debouncer_def)
  from t l have "val (run_blocks (take 1 (debouncer_blocks 2 3)) ?st) = val ?st"
    by blast
  moreover from t h have "posedge [?n, ?o] ?st = posedge [?o, ?n] ?st"
    by blast
  moreover from t have "val (posedge (debouncer_blocks 2 3) ?st) Button_o
      = (if val ?st Debounce_cnt = 0 then val ?st Prev_button else nxt ?st Button_o)"
    and "val (posedge (debouncer_blocks 2 3) ?st) Prev_button = val ?st Button_i"
    by blast+
  ultimately show ?thesis
    by (simp add: drive_def power_up_def)
qed

theorem next_value_persists_witness:
  "nxt (run_blocks (debouncer_blocks 2 3) (drive Debounce_cnt 2 (drive Button_o 1
       (power_up (\<lambda>s. 0))))) Button_o = 1
   \<and> val (posedge (debouncer_blocks 2 3) (drive Debounce_cnt 2 (drive Button_o 1
       (power_up (\<lambda>s. 0))))) Button_o = 1
   \<and> nxt (run_blocks [ramp Ramp_o Delta 6] (drive Ramp_o 5 (drive Delta 63
       (power_up (\<lambda>s. 0))))) Delta = 63"
proof -
  let ?sd = "drive Debounce_cnt 2 (drive Button_o 1 (power_up (\<lambda>s. 0)))"
  let ?sr = "drive Ramp_o 5 (drive Delta 63 (power_up (\<lambda>s. 0)))"
  note t = next_value_persists [of Button_o "debouncer_blocks 2 3" ?sd ?sr 6 ?sd 2 3]
  have h: "Button_o \<notin> fst ` set (round_writes (debouncer_blocks 2 3) ?sd)"
    by (simp add: debouncer_blocks_def debouncer_def debouncer_next_state_logic_def
        debouncer_output_logic_def drive_def power_up_def exec_block_def set_next_def)
  have r: "val ?sr Ramp_o \<noteq> 1 \<and> val ?sr Ramp_o \<noteq> 2 ^ 6 - 2 \<and> val ?sr Delta \<noteq> 0"
    by (simp add: drive_def power_up_def)
  have d: "val ?sd Debounce_cnt \<noteq> 0"
    by (simp add: drive_def power_up_def)
  from t d have "nxt (run_blocks (debouncer_blocks 2 3) ?sd) Button_o = nxt ?sd Button_o"
    by blast
  moreover from t h have "val (posedge (debouncer_blocks 2 3) ?sd) Button_o = nxt ?sd Button_o"
    by blast
  moreover from t r have "nxt (run_blocks [ramp Ramp_o Delta 6] ?sr) Delta = nxt ?sr Delta"
    by blast
  ultimately show ?thesis
    by (simp add: drive_def power_up_def)
qed

section \<open>The memories\<close>

text \<open>
  Claim C7. Writing \<open>v\<close> to a valid address \<open>i\<close> (write-enable high at a clock edge) and
  then reading address \<open>i\<close> returns exactly \<open>v\<close> on \<^verbatim>\<open>data_o\<close>: for \<^verbatim>\<open>ram\<close> the read
  is the next cycle with write-enable low; for \<^verbatim>\<open>simpler_ram\<close> and \<^verbatim>\<open>dualport_ram\<close>
  the read is the next cycle whatever is written then. In the dual-port memory a read of an
  address \<open>j\<close> other than the address written in the same cycle returns the value stored
  at \<open>j\<close>, and that location keeps its scheduled value.
\<close>
theorem ram_round_trip:
  assumes "0 \<le> i" and "i < 2 ^ aw" and "0 \<le> v" and "v < 2 ^ dw" and "dw \<le> ow"
    and "0 \<le> j" and "j < 2 ^ aw" and "j \<noteq> i"
    and "0 \<le> val st (Dp_mem (nat j))" and "val st (Dp_mem (nat j)) < 2 ^ dw"
  shows "val (ram_cycle (ram Wr_i Addr_i Data_i Data_o Mem dw ow) aw dw 0 i d
           (ram_cycle (ram Wr_i Addr_i Data_i Data_o Mem dw ow) aw dw 1 i v sm)) Data_o = v
       \<and> val (ram_cycle (simpler_ram Wr_i Addr_i Data_i Data_o Mem dw ow) aw dw wr i d
           (ram_cycle (simpler_ram Wr_i Addr_i Data_i Data_o Mem dw ow) aw dw 1 i v sm)) Data_o = v
       \<and> val (dualport_cycle aw dw ow wr wa i d
           (dualport_cycle aw dw ow 1 i ra v st)) Dp_data_o = v
       \<and> val (dualport_cycle aw dw ow 1 i j v st) Dp_data_o = val st (Dp_mem (nat j))
       \<and> val (dualport_cycle aw dw ow 1 i j v st) (Dp_mem (nat j)) = nxt st (Dp_mem (nat j))"
proof -
  have a: "wrap aw i = i" and b: "wrap dw v = v" and c: "wrap ow v = v"
    and e: "wrap aw j = j" and f: "wrap ow (val st (Dp_mem (nat j))) = val st (Dp_mem (nat j))"
    using assms by (simp_all add: wrap_id wrap_widen [where dw = dw])
  have g: "nat j \<noteq> nat i"
    using assms by simp
  have "val (ram_cycle (ram Wr_i Addr_i Data_i Data_o Mem dw ow) aw dw 0 i d
           (ram_cycle (ram Wr_i Addr_i Data_i Data_o Mem dw ow) aw dw 1 i v sm)) Data_o = v"
    by (simp add: ram_cycle_def sim_defs ram_def a b c)
  moreover have "val (ram_cycle (simpler_ram Wr_i Addr_i Data_i Data_o Mem dw ow) aw dw wr i d
           (ram_cycle (simpler_ram Wr_i Addr_i Data_i Data_o Mem dw ow) aw dw 1 i v sm)) Data_o = v"
    by (simp add: ram_cycle_def sim_defs simpler_ram_def a b c)
  moreover have "val (dualport_cycle aw dw ow wr wa i d
           (dualport_cycle aw dw ow 1 i ra v st)) Dp_data_o = v"
    by (simp add: dualport_cycle_def sim_defs dualport_ram_def a b c)
  moreover have "val (dualport_cycle aw dw ow 1 i j v st) Dp_data_o = val st (Dp_mem (nat j))"
    using g by (simp add: dualport_cycle_def sim_defs dualport_ram_def a b e f)
  moreover have "val (dualport_cycle aw dw ow 1 i j v st) (Dp_mem (nat j))
      = nxt st (Dp_mem (nat j))"
    using g by (simp add: dualport_cycle_def sim_defs dualport_ram_def a b e)
  ultimately show ?thesis by simp
qed

theorem ram_round_trip_witness:
  "val (ram_cycle (ram Wr_i Addr_i Data_i Data_o Mem 8 8) 8 8 0 3 0
     (ram_cycle (ram Wr_i Addr_i Data_i Data_o Mem 8 8) 8 8 1 3 10 (power_up (\<lambda>s. 0))))
     Data_o = 10
   \<and> val (dualport_cycle 8 8 8 1 3 5 10 (drive (Dp_mem 5) 7 (power_up (\<lambda>s. 0)))) Dp_data_o = 7"
  using ram_round_trip [of 3 8 10 8 8 5 "drive (Dp_mem 5) 7 (power_up (\<lambda>s. 0))" 0
      "power_up (\<lambda>s. 0)"]
  by (simp add: drive_def power_up_def)

text \<open>
  Claim C8. In the dual-port memory a read and a write of the same location \<open>a\<close> in the
  same clock cycle both take effect: \<^verbatim>\<open>data_o\<close> receives the value the location held
  before the edge, and the location receives the written value.
\<close>
theorem dualport_same_location:
  assumes "0 \<le> val st (Dp_mem (nat (wrap aw a)))"
    and "val st (Dp_mem (nat (wrap aw a))) < 2 ^ ow"
  shows "val (dualport_cycle aw dw ow 1 a a d st) Dp_data_o = val st (Dp_mem (nat (wrap aw a)))
       \<and> val (dualport_cycle aw dw ow 1 a a d st) (Dp_mem (nat (wrap aw a))) = wrap dw d"
  using assms by (simp add: dualport_cycle_def sim_defs dualport_ram_def wrap_id)

theorem dualport_same_location_witness:
  "val (dualport_cycle 8 8 8 1 3 3 10 (drive (Dp_mem 3) 7 (power_up (\<lambda>s. 0)))) Dp_data_o = 7
   \<and> val (dualport_cycle 8 8 8 1 3 3 10 (drive (Dp_mem 3) 7 (power_up (\<lambda>s. 0)))) (Dp_mem 3) = 10"
  using dualport_same_location [of "drive (Dp_mem 3) 7 (power_up (\<lambda>s. 0))" 8 3 8 8 10]
  by (simp add: wrap_def drive_def power_up_def)

section \<open>The reset generator\<close>

lemma gen_reset_sim_Suc:
  "val (gen_reset_sim (Suc n)) Cntr = 1 \<and> nxt (gen_reset_sim (Suc n)) Cntr = 1
   \<and> val (gen_reset_sim (Suc n)) Reset_o = (if n = 0 then 1 else 0)"
  by (induction n) (simp_all add: sim_defs gen_reset_def wrap_def)

text \<open>
  Claim C9. From power-up (counter 0) the reset generator drives \<^verbatim>\<open>reset_o\<close> to 1 at the
  first rising clock edge and to 0 at every later one: after \<open>n\<close> edges \<^verbatim>\<open>reset_o\<close> is 1
  exactly when \<open>n = 1\<close>.
\<close>
theorem gen_reset_pulse:
  "val (gen_reset_sim 0) Cntr = 0
   \<and> val (gen_reset_sim n) Reset_o = (if n = 1 then 1 else 0)"
proof (cases n)
  case 0
  then show ?thesis by (simp add: power_up_def)
next
  case (Suc m)
  then show ?thesis
    using gen_reset_sim_Suc [of m] by (simp add: power_up_def)
qed

section \<open>The ramp\<close>

lemma nxt_posedge [simp]: "nxt (posedge bs st) = val (posedge bs st)"
  by (simp add: posedge_def commit_def)

lemma wrap_dec:
  assumes "1 \<le> x" and "x \<le> 2 ^ w"
  shows "wrap w (x + (2 ^ w - 1)) = x - 1"
proof -
  have e: "x + (2 ^ w - 1) = (x - 1) + 2 ^ w" by simp
  have "(x - 1 + 2 ^ w) mod 2 ^ w = (x - 1) mod 2 ^ w" by simp
  also have "\<dots> = x - 1" using assms by simp
  finally show ?thesis unfolding wrap_def e .
qed

lemma wrap_minus_one: "wrap w (- 1) = 2 ^ w - 1"
  by (simp add: wrap_def zmod_minus1)

lemma wrap_one: "1 \<le> w \<Longrightarrow> wrap w 1 = 1"
  by (simp add: wrap_def)

lemma ramp_step:
  assumes "nxt st = val st"
  shows "val (posedge [ramp Ramp_o Delta w] st) Ramp_o =
           (if val st Ramp_o \<noteq> 1 \<and> val st Ramp_o \<noteq> 2 ^ w - 2 \<and> val st Delta = 0
            then wrap w 1 else wrap w (val st Ramp_o + val st Delta))"
    and "val (posedge [ramp Ramp_o Delta w] st) Delta =
           (if val st Ramp_o = 1 then wrap w 1
            else if val st Ramp_o = 2 ^ w - 2 then wrap w (- 1)
            else if val st Delta = 0 then wrap w 1 else val st Delta)"
  using assms by (simp_all add: sim_defs ramp_def)

lemma ramp_sim_quiescent: "nxt (ramp_sim w n) = val (ramp_sim w n)"
  by (cases n) (simp_all add: power_up_def)

lemma mod_succ_int:
  assumes "0 < (P::int)"
  shows "(a + 1) mod P = (if a mod P = P - 1 then 0 else a mod P + 1)"
proof -
  have b: "0 \<le> a mod P" "a mod P < P" using assms by simp_all
  have e: "(a + 1) mod P = (a mod P + 1) mod P" by (simp add: mod_add_left_eq)
  show ?thesis
  proof (cases "a mod P = P - 1")
    case True
    then show ?thesis using e by simp
  next
    case False
    with b have "a mod P + 1 < P" by linarith
    with b e False show ?thesis by simp
  qed
qed

lemma tri_step:
  fixes M k k' r d :: int and W :: "int \<Rightarrow> int"
  assumes M: "4 \<le> M" and kb: "0 \<le> k" "k < 2 * M - 2"
    and r: "r = (if k \<le> M - 1 then k else 2 * M - 2 - k)"
    and d: "d = (if k < M - 1 then 1 else M - 1)"
    and k': "k' = (if k = 2 * M - 3 then 0 else k + 1)"
    and up: "\<And>x. 0 \<le> x \<Longrightarrow> x < M - 1 \<Longrightarrow> W (x + 1) = x + 1"
    and dn: "\<And>x. 1 \<le> x \<Longrightarrow> x \<le> M \<Longrightarrow> W (x + (M - 1)) = x - 1"
    and w1: "W 1 = 1" and wm: "W (- 1) = M - 1"
  shows "(if r \<noteq> 1 \<and> r \<noteq> M - 2 \<and> d = 0 then W 1 else W (r + d))
           = (if k' \<le> M - 1 then k' else 2 * M - 2 - k')"
    and "(if r = 1 then W 1 else if r = M - 2 then W (- 1) else if d = 0 then W 1 else d)
           = (if k' < M - 1 then 1 else M - 1)"
proof -
  consider "k < M - 1" | "k = M - 1" | "M - 1 < k" "k < 2 * M - 3" | "k = 2 * M - 3"
    using kb by linarith
  then have "(if r \<noteq> 1 \<and> r \<noteq> M - 2 \<and> d = 0 then W 1 else W (r + d))
           = (if k' \<le> M - 1 then k' else 2 * M - 2 - k')
     \<and> (if r = 1 then W 1 else if r = M - 2 then W (- 1) else if d = 0 then W 1 else d)
           = (if k' < M - 1 then 1 else M - 1)"
  proof cases
    case 1
    have v: "r = k" "d = 1" "k' = k + 1" using 1 M r d k' by simp_all
    have u: "W (k + 1) = k + 1" using up [of k] kb 1 by simp
    show ?thesis unfolding v u w1 wm using 1 M by auto
  next
    case 2
    have v: "r = M - 1" "d = M - 1" "k' = M" using 2 M r d k' by simp_all
    have u: "W (M - 1 + (M - 1)) = M - 2" using dn [of "M - 1"] M by simp
    show ?thesis unfolding v u w1 wm using M by auto
  next
    case 3
    have v: "r = 2 * M - 2 - k" "d = M - 1" "k' = k + 1" using 3 M r d k' by simp_all
    have u: "W (2 * M - 2 - k + (M - 1)) = 2 * M - 3 - k"
      using dn [of "2 * M - 2 - k"] 3 M by simp
    show ?thesis unfolding v u w1 wm using 3 M by auto
  next
    case 4
    have v: "r = 1" "d = M - 1" "k' = 0" using 4 M r d k' by simp_all
    have u: "W (1 + (M - 1)) = 0" using dn [of 1] M by simp
    show ?thesis unfolding v u w1 wm using M by auto
  qed
  then show "(if r \<noteq> 1 \<and> r \<noteq> M - 2 \<and> d = 0 then W 1 else W (r + d))
           = (if k' \<le> M - 1 then k' else 2 * M - 2 - k')"
    and "(if r = 1 then W 1 else if r = M - 2 then W (- 1) else if d = 0 then W 1 else d)
           = (if k' < M - 1 then 1 else M - 1)"
    by blast+
qed


lemma four_le_pow: "2 \<le> w \<Longrightarrow> (4::int) \<le> 2 ^ w"
proof -
  assume "2 \<le> w"
  then have "(2::int) ^ 2 \<le> 2 ^ w" by (rule power_increasing) simp
  then show ?thesis by simp
qed

lemma ramp_sim_state:
  assumes w: "2 \<le> w" and a: "a = int n + 1"
  shows "val (ramp_sim w (Suc n)) Ramp_o =
           (if a mod (2 * 2 ^ w - 2) \<le> 2 ^ w - 1 then a mod (2 * 2 ^ w - 2)
            else 2 * 2 ^ w - 2 - a mod (2 * 2 ^ w - 2))
       \<and> val (ramp_sim w (Suc n)) Delta =
           (if a mod (2 * 2 ^ w - 2) < 2 ^ w - 1 then 1 else 2 ^ w - 1)"
  using a
proof (induction n arbitrary: a)
  case 0
  have M: "(4::int) \<le> 2 ^ w" using w by (rule four_le_pow)
  then have m: "(1::int) mod (2 * 2 ^ w - 2) = 1" by simp
  have w1: "wrap w 1 = 1" using w by (simp add: wrap_one)
  have a1: "a = 1" using 0 by simp
  have q: "nxt (power_up (\<lambda>s. 0) :: rsig sigs) = val (power_up (\<lambda>s. 0) :: rsig sigs)"
    by (simp add: power_up_def)
  have z: "val (power_up (\<lambda>s. 0) :: rsig sigs) Ramp_o = 0"
    "val (power_up (\<lambda>s. 0) :: rsig sigs) Delta = 0"
    by (simp_all add: power_up_def)
  show ?case
    unfolding a1 m ramp_sim.simps ramp_step [OF q] z w1 using M by simp
next
  case (Suc n)
  define M :: int where "M = 2 ^ w"
  define k where "k = (a - 1) mod (2 * M - 2)"
  have M: "4 \<le> M" unfolding M_def using w by (rule four_le_pow)
  have kb: "0 \<le> k" "k < 2 * M - 2" using M by (simp_all add: k_def)
  have k': "a mod (2 * M - 2) = (if k = 2 * M - 3 then 0 else k + 1)"
    using mod_succ_int [of "2 * M - 2" "a - 1"] M by (simp add: k_def)
  have am: "a - 1 = int n + 1" using Suc.prems by simp
  note ih = Suc.IH [OF am, folded M_def, folded k_def]
  have r: "val (ramp_sim w (Suc n)) Ramp_o = (if k \<le> M - 1 then k else 2 * M - 2 - k)"
    and d: "val (ramp_sim w (Suc n)) Delta = (if k < M - 1 then 1 else M - 1)"
    using ih by blast+
  have w1: "wrap w 1 = 1" using w by (simp add: wrap_one)
  have wm: "wrap w (- 1) = M - 1" by (simp add: wrap_minus_one M_def)
  have up: "wrap w (x + 1) = x + 1" if "0 \<le> x" "x < M - 1" for x
    using that by (simp add: wrap_def M_def)
  have dn: "wrap w (x + (M - 1)) = x - 1" if "1 \<le> x" "x \<le> M" for x
    using that wrap_dec [of x w] by (simp add: M_def)
  have q: "nxt (ramp_sim w (Suc n)) = val (ramp_sim w (Suc n))"
    by (rule ramp_sim_quiescent)
  note t = tri_step [of M k "val (ramp_sim w (Suc n)) Ramp_o" "val (ramp_sim w (Suc n)) Delta"
      "a mod (2 * M - 2)" "wrap w", OF M kb r d k' up dn w1 wm]
  have s: "ramp_sim w (Suc (Suc n)) = posedge [ramp Ramp_o Delta w] (ramp_sim w (Suc n))"
    by (simp only: ramp_sim.simps)
  show ?case
    unfolding s ramp_step [OF q] M_def [symmetric] using t by blast
qed

lemma ramp_sim_value:
  assumes w: "2 \<le> w"
  shows "val (ramp_sim w n) Ramp_o =
           (if int n mod (2 * 2 ^ w - 2) \<le> 2 ^ w - 1 then int n mod (2 * 2 ^ w - 2)
            else 2 * 2 ^ w - 2 - int n mod (2 * 2 ^ w - 2))"
proof (cases n)
  case 0
  then show ?thesis by (simp add: power_up_def)
next
  case (Suc m)
  have "int n = int m + 1" using Suc by simp
  then show ?thesis
    using ramp_sim_state [OF w, of "int n" m] Suc by blast
qed

text \<open>
  Claim C6, as the code has it. From the state after configuration (ramp 0, delta 0) the
  first clock edge moves the ramp to 1; the ramp then rises by one each cycle up to
  \<open>max - 1\<close>, falls by one each cycle down to 0, and rises again: after \<open>n\<close> edges its
  value is the triangle wave of period \<open>2 * max - 2\<close> between 0 and \<open>max - 1\<close> (the
  source's own comment reads 0, 1, ..., 62, 63, 62, ..., 1, 0 for six bits). The registered
  \<^verbatim>\<open>delta\<close> turns one cycle after the ramp passes 1 or \<open>max - 2\<close>.
\<close>
theorem ramp_triangle_wave:
  assumes w: "2 \<le> w"
  shows "val (ramp_sim w 0) Ramp_o = 0 \<and> val (ramp_sim w 0) Delta = 0
     \<and> val (ramp_sim w 1) Ramp_o = 1
     \<and> val (ramp_sim w n) Ramp_o =
           (if int n mod (2 * 2 ^ w - 2) \<le> 2 ^ w - 1 then int n mod (2 * 2 ^ w - 2)
            else 2 * 2 ^ w - 2 - int n mod (2 * 2 ^ w - 2))
     \<and> (int n mod (2 * 2 ^ w - 2) < 2 ^ w - 1
          \<longrightarrow> val (ramp_sim w (Suc n)) Ramp_o = val (ramp_sim w n) Ramp_o + 1)
     \<and> (2 ^ w - 1 \<le> int n mod (2 * 2 ^ w - 2)
          \<longrightarrow> val (ramp_sim w (Suc n)) Ramp_o = val (ramp_sim w n) Ramp_o - 1)"
proof -
  define M :: int where "M = 2 ^ w"
  define k where "k = int n mod (2 * M - 2)"
  define k' where "k' = (int n + 1) mod (2 * M - 2)"
  have M: "4 \<le> M" unfolding M_def using w by (rule four_le_pow)
  have kb: "0 \<le> k" "k < 2 * M - 2" using M by (simp_all add: k_def)
  have ks: "k' = (if k = 2 * M - 3 then 0 else k + 1)"
    using mod_succ_int [of "2 * M - 2" "int n"] M by (simp add: k_def k'_def)
  have vn: "val (ramp_sim w n) Ramp_o = (if k \<le> M - 1 then k else 2 * M - 2 - k)"
    using ramp_sim_value [OF w, of n] by (simp only: M_def k_def)
  have e: "int (Suc n) = int n + 1" by simp
  have vs: "val (ramp_sim w (Suc n)) Ramp_o = (if k' \<le> M - 1 then k' else 2 * M - 2 - k')"
    using ramp_sim_value [OF w, of "Suc n"] by (simp only: M_def k'_def e)
  have z: "val (ramp_sim w 0) Ramp_o = 0 \<and> val (ramp_sim w 0) Delta = 0"
    by (simp add: power_up_def)
  have "(1::int) mod (2 * M - 2) = 1" using M by simp
  then have o: "val (ramp_sim w 1) Ramp_o = 1"
    using ramp_sim_value [OF w, of 1] M by (simp add: M_def)
  have up: "val (ramp_sim w (Suc n)) Ramp_o = val (ramp_sim w n) Ramp_o + 1" if "k < M - 1"
    unfolding vn vs ks using that M by simp
  have dn: "val (ramp_sim w (Suc n)) Ramp_o = val (ramp_sim w n) Ramp_o - 1" if "M - 1 \<le> k"
    unfolding vn vs ks using that M kb by auto
  show ?thesis
    using z o vn up dn unfolding M_def k_def by blast
qed

theorem ramp_triangle_wave_witness:
  "val (ramp_sim 6 62) Ramp_o = 62 \<and> val (ramp_sim 6 63) Ramp_o = 63
   \<and> val (ramp_sim 6 64) Ramp_o = 62 \<and> val (ramp_sim 6 126) Ramp_o = 0"
  using ramp_triangle_wave [of 6 62] ramp_triangle_wave [of 6 63] ramp_triangle_wave [of 6 126]
  by simp

text \<open>
  With two bits (\<open>max = 4\<close>) the ramp reaches \<open>max - 2\<close> after two edges and goes on to
  \<open>max - 1\<close>; it reaches 1 after five edges and goes on to 0.
\<close>
theorem ramp_peak_counterexample:
  "val (ramp_sim 2 2) Ramp_o = 2 ^ 2 - 2 \<and> val (ramp_sim 2 3) Ramp_o = 2 ^ 2 - 1
   \<and> val (ramp_sim 2 5) Ramp_o = 1 \<and> val (ramp_sim 2 6) Ramp_o = 0"
  by (simp add: eval_nat_numeral sim_defs ramp_def wrap_def)

section \<open>The debouncer\<close>

lemma debouncer_step:
  assumes "nxt st = val st"
  shows "val (posedge (debouncer_blocks w T) (drive Button_i b st)) Debounce_cnt =
           (if b = val st Prev_button
            then (if val st Debounce_cnt \<noteq> 0 then wrap w (val st Debounce_cnt - 1)
                  else val st Debounce_cnt)
            else wrap w (int T))"
    and "val (posedge (debouncer_blocks w T) (drive Button_i b st)) Prev_button = b"
    and "val (posedge (debouncer_blocks w T) (drive Button_i b st)) Button_o =
           (if val st Debounce_cnt = 0 then val st Prev_button else val st Button_o)"
  using assms
  by (simp_all add: debouncer_blocks_def debouncer_def sim_defs
      debouncer_next_state_logic_def debouncer_output_logic_def)

lemma bouncing_toggles: "1 \<le> n \<Longrightarrow> n \<le> k \<Longrightarrow> bouncing v k n \<noteq> bouncing v k (n - 1)"
proof -
  assume a: "1 \<le> n" "n \<le> k"
  then have m: "min n k = n" "min (n - 1) k = n - 1" by simp_all
  have "even n \<noteq> even (n - 1)" using a by (cases n) simp_all
  moreover have "v \<noteq> 1 - v" by presburger
  ultimately show ?thesis unfolding bouncing_def m by auto
qed

lemma debouncer_sim_quiescent: "nxt (debouncer_sim w T inp n) = val (debouncer_sim w T inp n)"
  by (cases n) (simp_all add: power_up_def)

lemma bounce_invariant:
  assumes T: "int T < 2 ^ w" "1 \<le> T"
  shows "n \<le> k + T + 1 \<Longrightarrow>
     val (debouncer_sim w T (bouncing v k) n) Button_o = 0
     \<and> val (debouncer_sim w T (bouncing v k) n) Prev_button
         = (if n = 0 then 0 else bouncing v k (n - 1))
     \<and> (val (debouncer_sim w T (bouncing v k) n) Debounce_cnt = 0
          \<and> val (debouncer_sim w T (bouncing v k) n) Prev_button = 0
        \<or> 1 \<le> n
          \<and> min (int T) (int k + int T + 1 - int n)
               \<le> val (debouncer_sim w T (bouncing v k) n) Debounce_cnt
          \<and> val (debouncer_sim w T (bouncing v k) n) Debounce_cnt \<le> int T)"
proof (induction n)
  case 0
  show ?case by (simp add: power_up_def)
next
  case (Suc n)
  let ?S = "debouncer_sim w T (bouncing v k) n"
  define c where "c = val ?S Debounce_cnt"
  define p where "p = val ?S Prev_button"
  define b where "b = bouncing v k n"
  define a where "a = int n"
  have nb: "n \<le> k + T" using Suc.prems by simp
  then have ab: "a \<le> int k + int T" by (simp add: a_def)
  have nb1: "n \<le> k + T + 1" using nb by simp
  have ih: "val ?S Button_o = 0" "p = (if n = 0 then 0 else bouncing v k (n - 1))"
    "c = 0 \<and> p = 0 \<or> 1 \<le> n \<and> min (int T) (int k + int T + 1 - a) \<le> c \<and> c \<le> int T"
    unfolding c_def p_def a_def using Suc.IH [OF nb1] by blast+
  have q: "nxt ?S = val ?S" by (rule debouncer_sim_quiescent)
  have s: "debouncer_sim w T (bouncing v k) (Suc n)
      = posedge (debouncer_blocks w T) (drive Button_i b ?S)"
    by (simp add: b_def)
  have wT: "wrap w (int T) = int T" using T by (simp add: wrap_id)
  have C: "val (debouncer_sim w T (bouncing v k) (Suc n)) Debounce_cnt =
      (if b = p then (if c \<noteq> 0 then wrap w (c - 1) else c) else int T)"
    unfolding s debouncer_step(1) [OF q] c_def p_def wT ..
  have P: "val (debouncer_sim w T (bouncing v k) (Suc n)) Prev_button = b"
    unfolding s debouncer_step(2) [OF q] ..
  have O: "val (debouncer_sim w T (bouncing v k) (Suc n)) Button_o =
      (if c = 0 then p else 0)"
    unfolding s debouncer_step(3) [OF q] c_def p_def ih(1) ..
  have e: "int (Suc n) = a + 1" by (simp add: a_def)
  have goal: "(if c = 0 then p else 0) = 0
     \<and> ((if b = p then (if c \<noteq> 0 then wrap w (c - 1) else c) else int T) = 0 \<and> b = 0
        \<or> min (int T) (int k + int T + 1 - (a + 1))
             \<le> (if b = p then (if c \<noteq> 0 then wrap w (c - 1) else c) else int T)
          \<and> (if b = p then (if c \<noteq> 0 then wrap w (c - 1) else c) else int T) \<le> int T)"
    using ih(3)
  proof
    assume h: "c = 0 \<and> p = 0"
    then show ?thesis by auto
  next
    assume h: "1 \<le> n \<and> min (int T) (int k + int T + 1 - a) \<le> c \<and> c \<le> int T"
    have c1: "1 \<le> c" using h ab T(2) by linarith
    show ?thesis
    proof (cases "b = p")
      case False
      then show ?thesis using c1 by simp
    next
      case True
      have "bouncing v k n = bouncing v k (n - 1)"
        using True ih(2) h by (simp add: b_def)
      then have "k < n" using bouncing_toggles [of n k v] h by force
      then have "int k + int T + 1 - a \<le> c" using h by (simp add: a_def)
      moreover have "wrap w (c - 1) = c - 1"
      proof (rule wrap_id)
        show "0 \<le> c - 1" using c1 by linarith
        show "c - 1 < 2 ^ w" using h T(1) by linarith
      qed
      ultimately show ?thesis using True c1 h by simp
    qed
  qed
  show ?case
    unfolding C P O e using goal by (simp add: b_def)
qed

lemma steady_invariant:
  assumes T: "int T < 2 ^ w"
  shows "val (debouncer_sim w T (\<lambda>n. v) (Suc m)) Prev_button = v
     \<and> 0 \<le> val (debouncer_sim w T (\<lambda>n. v) (Suc m)) Debounce_cnt
     \<and> val (debouncer_sim w T (\<lambda>n. v) (Suc m)) Debounce_cnt \<le> max 0 (int T - int m)
     \<and> (T + 1 \<le> m \<longrightarrow> val (debouncer_sim w T (\<lambda>n. v) (Suc m)) Button_o = v)"
proof (induction m)
  case 0
  have q: "nxt (power_up (\<lambda>s. 0) :: dsig sigs) = val (power_up (\<lambda>s. 0) :: dsig sigs)"
    by (simp add: power_up_def)
  have wT: "wrap w (int T) = int T" using T by (simp add: wrap_id)
  show ?case
    unfolding debouncer_sim.simps debouncer_step [OF q] wT by (simp add: power_up_def)
next
  case (Suc m)
  let ?S = "debouncer_sim w T (\<lambda>n. v) (Suc m)"
  define c where "c = val ?S Debounce_cnt"
  define a where "a = int m"
  have ih: "val ?S Prev_button = v" "0 \<le> c" "c \<le> max 0 (int T - a)"
    unfolding c_def a_def using Suc.IH by blast+
  have q: "nxt ?S = val ?S" by (rule debouncer_sim_quiescent)
  have s: "debouncer_sim w T (\<lambda>n. v) (Suc (Suc m))
      = posedge (debouncer_blocks w T) (drive Button_i v ?S)"
    by simp
  have cT: "c \<le> int T" using ih(3) by (simp add: a_def)
  have wc: "wrap w (c - 1) = c - 1" if "c \<noteq> 0"
  proof (rule wrap_id)
    show "0 \<le> c - 1" using that ih(2) by linarith
    show "c - 1 < 2 ^ w" using cT T by linarith
  qed
  have C: "val (debouncer_sim w T (\<lambda>n. v) (Suc (Suc m))) Debounce_cnt =
      (if c \<noteq> 0 then c - 1 else c)"
    unfolding s debouncer_step(1) [OF q] ih(1) using wc by (simp add: c_def)
  have P: "val (debouncer_sim w T (\<lambda>n. v) (Suc (Suc m))) Prev_button = v"
    unfolding s debouncer_step(2) [OF q] ..
  have O: "val (debouncer_sim w T (\<lambda>n. v) (Suc (Suc m))) Button_o =
      (if c = 0 then v else val ?S Button_o)"
    unfolding s debouncer_step(3) [OF q] ih(1) c_def ..
  have e: "int (Suc m) = a + 1" by (simp add: a_def)
  have z: "c = 0" if "T + 1 \<le> Suc m"
  proof -
    from that have "int T - a \<le> 0" by (simp add: a_def)
    with ih show ?thesis by simp
  qed
  show ?case
    unfolding C P O e using ih z by auto
qed

lemma bouncing_steady: "bouncing v 0 = (\<lambda>n. v)"
  by (simp add: bouncing_def fun_eq_iff)

text \<open>
  Claim C5, as the code has it. With a threshold \<open>T\<close> that fits the counter, a raw
  input that toggles at every cycle for \<open>k < T\<close> cycles and then holds steady leaves
  \<^verbatim>\<open>button_o\<close> at its initial value for the first \<open>k + T + 1\<close> clock edges, so the
  output does not change before \<open>T\<close> stable cycles have passed after the last toggle. An
  input held steady at \<open>v\<close> from the start is on \<^verbatim>\<open>button_o\<close> from clock edge
  \<open>T + 2\<close> on: one edge loads the counter, \<open>T\<close> edges count it down, and one more
  edge loads the output register.
\<close>
theorem debouncer_latency:
  assumes "int T < 2 ^ w"
  shows "(k < T \<longrightarrow>
            (\<forall>n \<le> k + T + 1. val (debouncer_sim w T (bouncing v k) n) Button_o
               = val (debouncer_sim w T (bouncing v k) 0) Button_o))
       \<and> (\<forall>n \<ge> T + 2. val (debouncer_sim w T (bouncing v 0) n) Button_o = v)"
proof -
  have a: "val (debouncer_sim w T (bouncing v k) n) Button_o
            = val (debouncer_sim w T (bouncing v k) 0) Button_o"
    if "k < T" "n \<le> k + T + 1" for n
  proof -
    from that(1) have "1 \<le> T" by simp
    from bounce_invariant [OF assms this that(2), of v] show ?thesis
      by (simp add: power_up_def)
  qed
  have b: "val (debouncer_sim w T (bouncing v 0) n) Button_o = v" if "T + 2 \<le> n" for n
  proof -
    from that obtain m where m: "n = Suc m" "T + 1 \<le> m"
      by (cases n) simp_all
    show ?thesis
      unfolding bouncing_steady m(1) using steady_invariant [OF assms, of v m] m(2) by blast
  qed
  show ?thesis using a b by blast
qed

theorem debouncer_latency_witness:
  "val (debouncer_sim 2 3 (bouncing 1 2) 6) Button_o = 0
   \<and> val (debouncer_sim 2 3 (bouncing 1 0) 5) Button_o = 1"
proof -
  have h: "int 3 < 2 ^ 2" by simp
  have k: "(2::nat) < 3" by simp
  note t = debouncer_latency [OF h, of 2 1]
  from t k have "val (debouncer_sim 2 3 (bouncing 1 2) 6) Button_o
      = val (debouncer_sim 2 3 (bouncing 1 2) 0) Button_o"
    by simp
  moreover from t have "val (debouncer_sim 2 3 (bouncing 1 0) 5) Button_o = 1"
    by simp
  ultimately show ?thesis by (simp add: power_up_def)
qed

text \<open>
  With threshold 3 and the input held at 1 from the start, \<^verbatim>\<open>button_o\<close> is still 0
  after 3 clock edges, and after 4; it is 1 after 5.
\<close>
theorem debouncer_threshold_counterexample:
  "val (debouncer_sim 2 3 (bouncing 1 0) 3) Button_o = 0
   \<and> val (debouncer_sim 2 3 (bouncing 1 0) 4) Button_o = 0
   \<and> val (debouncer_sim 2 3 (bouncing 1 0) 5) Button_o = 1"
  by (simp add: eval_nat_numeral bouncing_def debouncer_blocks_def debouncer_def sim_defs
      debouncer_next_state_logic_def debouncer_output_logic_def wrap_def)

section \<open>The classic state machine\<close>

lemmas fsm_state_defs = s_A_def s_B_def s_C_def s_D_def

lemma commit_quiescent: "nxt (commit st) = val (commit st)"
  by (simp add: commit_def)

lemma settle_two_rounds:
  assumes "list_all (\<lambda>s. val (commit (run_blocks bs (commit (run_blocks bs st)))) s
             = val (commit (run_blocks bs st)) s) sigs"
    and "2 \<le> fuel"
  shows "settle fuel sigs bs st = Some (commit (run_blocks bs st))
       \<or> settle fuel sigs bs st = Some (commit (run_blocks bs (commit (run_blocks bs st))))"
proof -
  from assms(2) have f: "fuel = Suc (Suc (fuel - 2))" by simp
  show ?thesis
    by (subst f, subst (2) f) (use assms(1) in \<open>simp add: Let_def\<close>)
qed


lemma fsm_round_input_chgs:
  "val (commit (run_blocks (comb_blocks fsm_design) st)) Input_chgs =
     wrap 2 (bus_val Dbnc_inputs 2 st AND wrap 2 (NOT (val st Prev_inputs)))"
  by (simp add: fsm_design_def classic_fsm_def run_blocks_def exec_block_def commit_def
      detect_chg_def classic_fsm_output_logic_def)

lemma fsm_round_other:
  "s \<noteq> Outputs \<Longrightarrow> s \<noteq> Input_chgs \<Longrightarrow>
     val (commit (run_blocks (comb_blocks fsm_design) st)) s = nxt st s"
  by (simp add: fsm_design_def classic_fsm_def run_blocks_def exec_block_def commit_def
      detect_chg_def classic_fsm_output_logic_def)

lemma wrap_outputs: "wrap 4 1 = 1" "wrap 4 2 = 2" "wrap 4 4 = 4" "wrap 4 8 = 8" "wrap 4 15 = 15"
  by (simp_all add: wrap_def)

lemma fsm_round_outputs:
  "val (commit (run_blocks (comb_blocks fsm_design) st)) Outputs =
     (if val st Fsm_state = 0 then 1 else if val st Fsm_state = 1 then 2
      else if val st Fsm_state = 2 then 4 else if val st Fsm_state = 3 then 8 else 15)"
  by (simp add: fsm_design_def classic_fsm_def run_blocks_def exec_block_def commit_def
      detect_chg_def classic_fsm_output_logic_def fsm_state_defs wrap_outputs)


lemma debouncer_leaves:
  assumes "s \<noteq> bo" and "s \<noteq> dc" and "s \<noteq> pb"
  shows "nxt (run_blocks (debouncer bi bo dc pb w T) st) s = nxt st s"
  using assms
  by (simp add: debouncer_def run_blocks_def exec_block_def debouncer_next_state_logic_def
      debouncer_output_logic_def)

lemma run_blocks_append: "run_blocks (xs @ ys) st = run_blocks ys (run_blocks xs st)"
  by (simp add: run_blocks_def)

lemma fsm_posedge_state:
  assumes "nxt st Fsm_state \<in> {0, 1, 2, 3}"
  shows "val (posedge (seq_blocks fsm_design) st) Fsm_state \<in> {0, 1, 2, 3}"
proof -
  let ?d0 = "debouncer (Inputs 0) (Dbnc_inputs 0) (Dbcnt 0) (Prev_btn 0) 17 120000"
  let ?d1 = "debouncer (Inputs 1) (Dbnc_inputs 1) (Dbcnt 1) (Prev_btn 1) 17 120000"
  let ?n = "classic_fsm_next_state_logic Fsm_state Reset_cnt Input_chgs Prev_inputs Dbnc_inputs 2"
  let ?s1 = "run_blocks ?d1 (run_blocks ?d0 st)"
  have e: "posedge (seq_blocks fsm_design) st = commit (exec_block ?n ?s1)"
    by (simp add: posedge_def fsm_design_def classic_fsm_def run_blocks_append)
       (simp add: run_blocks_def)
  have k: "nxt ?s1 Fsm_state = nxt st Fsm_state"
    by (simp add: debouncer_leaves)
  have m: "nxt (exec_block ?n ?s1) Fsm_state \<in> {0, 1, 2, 3, nxt ?s1 Fsm_state}"
    by (simp add: exec_block_def classic_fsm_next_state_logic_def fsm_state_defs)
  have "val (posedge (seq_blocks fsm_design) st) Fsm_state = nxt (exec_block ?n ?s1) Fsm_state"
    unfolding e by (simp add: commit_def)
  then show ?thesis
    using m k assms by auto
qed


lemma fold_drive_quiescent:
  "nxt st = val st \<Longrightarrow>
     nxt (fold (\<lambda>k. drive (bus k) (g k)) ks st) = val (fold (\<lambda>k. drive (bus k) (g k)) ks st)"
  by (induction ks arbitrary: st) (simp_all add: drive_def)

lemma fold_drive_other:
  "\<forall>k. bus k \<noteq> s \<Longrightarrow> val (fold (\<lambda>k. drive (bus k) (g k)) ks st) s = val st s"
  by (induction ks arbitrary: st) (auto simp: drive_def)

lemma bus_val_2: "bus_val bus 2 st = val st (bus 0) + val st (bus 1) * 2"
  by (simp add: numeral_2_eq_2)

lemma fsm_settle:
  assumes q: "nxt st = val st" and f: "val st Fsm_state \<in> {0, 1, 2, 3}" and fuel: "2 \<le> fuel"
  shows "\<exists>st'. settle fuel fsm_sigs (comb_blocks fsm_design) st = Some st'
           \<and> nxt st' = val st' \<and> val st' Fsm_state = val st Fsm_state
           \<and> val st' Outputs = 2 ^ nat (val st Fsm_state)"
proof -
  let ?R1 = "commit (run_blocks (comb_blocks fsm_design) st)"
  let ?R2 = "commit (run_blocks (comb_blocks fsm_design) ?R1)"
  have o1: "val ?R1 s = val st s" if "s \<noteq> Outputs" "s \<noteq> Input_chgs" for s
    using fsm_round_other [OF that, of st] q by simp
  have o2: "val ?R2 s = val ?R1 s" if "s \<noteq> Outputs" "s \<noteq> Input_chgs" for s
    using fsm_round_other [OF that, of ?R1] by (simp add: commit_quiescent)
  have out1: "val ?R1 Outputs = 2 ^ nat (val st Fsm_state)"
    using f unfolding fsm_round_outputs by auto
  have out2: "val ?R2 Outputs = val ?R1 Outputs"
    unfolding fsm_round_outputs [of ?R1] fsm_round_outputs [of st] by (simp add: o1)
  have ic2: "val ?R2 Input_chgs = val ?R1 Input_chgs"
    unfolding fsm_round_input_chgs [of ?R1] fsm_round_input_chgs [of st] bus_val_2
    by (simp add: o1)
  have stable: "val ?R2 s = val ?R1 s" for s
    using o2 [of s] out2 ic2 by (cases "s = Outputs \<or> s = Input_chgs") auto
  then have "list_all (\<lambda>s. val ?R2 s = val ?R1 s) fsm_sigs"
    by (simp add: list_all_iff)
  from settle_two_rounds [OF this fuel]
  have "settle fuel fsm_sigs (comb_blocks fsm_design) st = Some ?R1
      \<or> settle fuel fsm_sigs (comb_blocks fsm_design) st = Some ?R2" .
  moreover have "nxt ?R1 = val ?R1 \<and> val ?R1 Fsm_state = val st Fsm_state
      \<and> val ?R1 Outputs = 2 ^ nat (val st Fsm_state)"
    using out1 o1 [of Fsm_state] by (simp add: commit_quiescent)
  moreover have "nxt ?R2 = val ?R2 \<and> val ?R2 Fsm_state = val st Fsm_state
      \<and> val ?R2 Outputs = 2 ^ nat (val st Fsm_state)"
    using out1 out2 o1 [of Fsm_state] o2 [of Fsm_state] by (simp add: commit_quiescent)
  ultimately show ?thesis by auto
qed

lemma fsm_sim_invariant:
  assumes fuel: "2 \<le> fuel"
  shows "\<exists>st. classic_fsm_sim fuel inp n = Some st \<and> nxt st = val st
           \<and> val st Fsm_state \<in> {0, 1, 2, 3} \<and> val st Outputs = 2 ^ nat (val st Fsm_state)"
proof (induction n)
  case 0
  have "nxt (power_up (\<lambda>s. 0) :: fsig sigs) = val (power_up (\<lambda>s. 0) :: fsig sigs)"
    and "val (power_up (\<lambda>s. 0) :: fsig sigs) Fsm_state \<in> {0, 1, 2, 3}"
    by (simp_all add: power_up_def)
  from fsm_settle [OF this fuel] show ?case
    by (auto simp: sim_start_def power_up_def)
next
  case (Suc n)
  then obtain st where st: "classic_fsm_sim fuel inp n = Some st" "nxt st = val st"
    "val st Fsm_state \<in> {0, 1, 2, 3}"
    by blast
  let ?d = "drive_bus Inputs 2 (inp n) st"
  let ?p = "posedge (seq_blocks fsm_design) ?d"
  have dq: "nxt ?d = val ?d"
    unfolding drive_bus_def using st(2) by (rule fold_drive_quiescent)
  have df: "val ?d Fsm_state = val st Fsm_state"
    unfolding drive_bus_def by (rule fold_drive_other) simp
  have "nxt ?d Fsm_state \<in> {0, 1, 2, 3}"
    using dq df st(3) by simp
  then have pf: "val ?p Fsm_state \<in> {0, 1, 2, 3}"
    by (rule fsm_posedge_state)
  have pq: "nxt ?p = val ?p"
    unfolding posedge_def by (rule commit_quiescent)
  from fsm_settle [OF pq pf fuel] obtain st' where
    "settle fuel fsm_sigs (comb_blocks fsm_design) ?p = Some st'" "nxt st' = val st'"
    "val st' Fsm_state = val ?p Fsm_state" "val st' Outputs = 2 ^ nat (val ?p Fsm_state)"
    by blast
  then show ?case
    using st(1) pf by (simp add: clock_cycle_def)
qed

text \<open>
  Claim C10. Whatever the test bench drives onto \<^verbatim>\<open>inputs\<close>, and for any number of clock
  cycles, the combinational blocks settle (two evaluation rounds suffice), the state
  register holds one of the declared states \<^verbatim>\<open>A\<close>, \<^verbatim>\<open>B\<close>, \<^verbatim>\<open>C\<close>, \<^verbatim>\<open>D\<close>, and
  \<^verbatim>\<open>outputs_o\<close> is one of 0b0001, 0b0010, 0b0100, 0b1000: the one bit selected by the
  state.
\<close>
theorem classic_fsm_one_hot:
  assumes "2 \<le> fuel"
  shows "\<exists>st. classic_fsm_sim fuel inp n = Some st
           \<and> val st Fsm_state \<in> {s_A, s_B, s_C, s_D}
           \<and> val st Outputs \<in> {1, 2, 4, 8}
           \<and> val st Outputs = 2 ^ nat (val st Fsm_state)"
proof -
  from fsm_sim_invariant [OF assms, of inp n] obtain st where
    st: "classic_fsm_sim fuel inp n = Some st" "val st Fsm_state \<in> {0, 1, 2, 3}"
      "val st Outputs = 2 ^ nat (val st Fsm_state)"
    by blast
  from st(2,3) have "val st Outputs \<in> {1, 2, 4, 8}" by auto
  with st show ?thesis by (auto simp: fsm_state_defs)
qed

theorem classic_fsm_one_hot_witness:
  "\<exists>st. classic_fsm_sim 2 (\<lambda>n. 1) 5 = Some st
      \<and> val st Fsm_state \<in> {s_A, s_B, s_C, s_D}
      \<and> val st Outputs \<in> {1, 2, 4, 8}
      \<and> val st Outputs = 2 ^ nat (val st Fsm_state)"
proof -
  have h: "(2::nat) \<le> 2" by simp
  show ?thesis using classic_fsm_one_hot [OF h, of "\<lambda>n. 1" 5] .
qed

section \<open>The ripple-carry adder\<close>

lemma full_adder_bits:
  fixes a b c :: int
  assumes "a \<in> {0, 1}" and "b \<in> {0, 1}" and "c \<in> {0, 1}"
  shows "(a XOR b XOR c) + 2 * ((a AND b) OR (a AND c) OR (b AND c)) = a + b + c"
    and "a XOR b XOR c \<in> {0, 1}"
    and "(a AND b) OR (a AND c) OR (b AND c) \<in> {0, 1}"
  using assms by auto

lemma bit_of_range: "bit_of x k \<in> {0, 1}"
  unfolding bit_of_def by auto


lemma run_blocks_snoc: "run_blocks (xs @ [b]) st = exec_block b (run_blocks xs st)"
  by (simp add: run_blocks_def)

lemma nxt_full_adder_bit:
  "nxt (exec_block (full_adder_bit a b ci s co) st) =
     (nxt st)(s := val st a XOR val st b XOR val st ci,
              co := (val st a AND val st b) OR (val st a AND val st ci)
                      OR (val st b AND val st ci))"
  by (simp add: exec_block_def full_adder_bit_def)

lemma stages_run:
  fixes a_i b_i s_o c :: "nat \<Rightarrow> 's"
  assumes inj: "inj s_o" "inj c" and dis: "\<And>i j. s_o i \<noteq> c j"
  defines "H n st \<equiv> run_blocks
      (map (\<lambda>k. full_adder_bit (a_i k) (b_i k) (c k) (s_o k) (c (Suc k))) [0..<n]) st"
  shows "k < n \<Longrightarrow> nxt (H n st) (s_o k) = val st (a_i k) XOR val st (b_i k) XOR val st (c k)"
    and "k < n \<Longrightarrow> nxt (H n st) (c (Suc k)) =
           (val st (a_i k) AND val st (b_i k)) OR (val st (a_i k) AND val st (c k))
             OR (val st (b_i k) AND val st (c k))"
    and "(\<And>k. k < n \<Longrightarrow> s \<noteq> s_o k \<and> s \<noteq> c (Suc k)) \<Longrightarrow> nxt (H n st) s = nxt st s"
proof -
  have v: "val (H n st) = val st" for n
    by (simp add: H_def)
  have step: "nxt (H (Suc n) st) =
      (nxt (H n st))(s_o n := val st (a_i n) XOR val st (b_i n) XOR val st (c n),
        c (Suc n) := (val st (a_i n) AND val st (b_i n)) OR (val st (a_i n) AND val st (c n))
             OR (val st (b_i n) AND val st (c n)))" for n
  proof -
    have "H (Suc n) st
        = exec_block (full_adder_bit (a_i n) (b_i n) (c n) (s_o n) (c (Suc n))) (H n st)"
      unfolding H_def by (simp add: run_blocks_snoc)
    then show ?thesis
      by (simp only: nxt_full_adder_bit v)
  qed
  have so: "s_o i \<noteq> s_o j" if "i \<noteq> j" for i j
    using inj(1) that by (auto dest: injD)
  have cc: "c i \<noteq> c j" if "i \<noteq> j" for i j
    using inj(2) that by (auto dest: injD)
  show "k < n \<Longrightarrow> nxt (H n st) (s_o k) = val st (a_i k) XOR val st (b_i k) XOR val st (c k)"
  proof (induction n)
    case 0
    then show ?case by simp
  next
    case (Suc n)
    show ?case
    proof (cases "k = n")
      case True
      then show ?thesis unfolding step using dis by simp
    next
      case False
      with Suc.prems have "k < n" by simp
      with Suc.IH False show ?thesis unfolding step using dis so by simp
    qed
  qed
  show "k < n \<Longrightarrow> nxt (H n st) (c (Suc k)) =
           (val st (a_i k) AND val st (b_i k)) OR (val st (a_i k) AND val st (c k))
             OR (val st (b_i k) AND val st (c k))"
  proof (induction n)
    case 0
    then show ?case by simp
  next
    case (Suc n)
    show ?case
    proof (cases "k = n")
      case True
      then show ?thesis unfolding step by simp
    next
      case False
      with Suc.prems have "k < n" by simp
      with Suc.IH False show ?thesis unfolding step using dis [of n "Suc k"] cc by simp
    qed
  qed
  show "(\<And>k. k < n \<Longrightarrow> s \<noteq> s_o k \<and> s \<noteq> c (Suc k)) \<Longrightarrow> nxt (H n st) s = nxt st s"
  proof (induction n)
    case 0
    show ?case by (simp add: H_def run_blocks_def)
  next
    case (Suc n)
    have "nxt (H n st) s = nxt st s"
      using Suc.prems by (intro Suc.IH) simp
    then show ?case unfolding step using Suc.prems [of n] by simp
  qed
qed


lemma adder_run:
  fixes a_i b_i s_o c :: "nat \<Rightarrow> 's"
  assumes inj: "inj s_o" "inj c" and dis: "\<And>i j. s_o i \<noteq> c j"
  shows "nxt (run_blocks (adder a_i b_i s_o c n) st) (c 0) = 0"
    and "k < n \<Longrightarrow> nxt (run_blocks (adder a_i b_i s_o c n) st) (c (Suc k)) =
           (val st (a_i k) AND val st (b_i k)) OR (val st (a_i k) AND val st (c k))
             OR (val st (b_i k) AND val st (c k))"
    and "k < n \<Longrightarrow> nxt (run_blocks (adder a_i b_i s_o c n) st) (s_o k) =
           val st (a_i k) XOR val st (b_i k) XOR val st (c k)"
    and "(\<And>k. s \<noteq> s_o k \<and> s \<noteq> c k) \<Longrightarrow>
           nxt (run_blocks (adder a_i b_i s_o c n) st) s = nxt st s"
proof -
  let ?t = "set_next (c 0) 0 st"
  let ?fa = "map (\<lambda>k. full_adder_bit (a_i k) (b_i k) (c k) (s_o k) (c (Suc k))) [0..<n]"
  have e: "run_blocks (adder a_i b_i s_o c n) st = run_blocks ?fa ?t"
    by (simp add: adder_def run_blocks_def exec_block_def)
  have v: "val ?t = val st" by simp
  have c0: "c 0 \<noteq> c (Suc k)" for k
    using inj(2) by (auto dest: injD)
  show "nxt (run_blocks (adder a_i b_i s_o c n) st) (c 0) = 0"
  proof -
    have "nxt (run_blocks ?fa ?t) (c 0) = nxt ?t (c 0)"
    proof (rule stages_run(3) [OF inj dis])
      fix k
      show "c 0 \<noteq> s_o k \<and> c 0 \<noteq> c (Suc k)"
        using dis [of k 0] c0 [of k] by simp
    qed
    then show ?thesis unfolding e by simp
  qed
  show "k < n \<Longrightarrow> nxt (run_blocks (adder a_i b_i s_o c n) st) (c (Suc k)) =
           (val st (a_i k) AND val st (b_i k)) OR (val st (a_i k) AND val st (c k))
             OR (val st (b_i k) AND val st (c k))"
    unfolding e using stages_run(2) [OF inj dis, of k n a_i b_i ?t] by (simp only: v)
  show "k < n \<Longrightarrow> nxt (run_blocks (adder a_i b_i s_o c n) st) (s_o k) =
           val st (a_i k) XOR val st (b_i k) XOR val st (c k)"
    unfolding e using stages_run(1) [OF inj dis, of k n a_i b_i ?t] by (simp only: v)
  show "(\<And>k. s \<noteq> s_o k \<and> s \<noteq> c k) \<Longrightarrow>
           nxt (run_blocks (adder a_i b_i s_o c n) st) s = nxt st s"
  proof -
    assume a: "\<And>k. s \<noteq> s_o k \<and> s \<noteq> c k"
    have "nxt (run_blocks ?fa ?t) s = nxt ?t s"
      using a by (intro stages_run(3) [OF inj dis]) simp
    also have "\<dots> = nxt st s" using a [of 0] by simp
    finally show ?thesis unfolding e .
  qed
qed


lemma adder_fixed_point:
  fixes a_i b_i s_o c :: "nat \<Rightarrow> 's"
  assumes bits: "\<And>k. k < n \<Longrightarrow> val F (a_i k) \<in> {0, 1} \<and> val F (b_i k) \<in> {0, 1}"
    and c0: "val F (c 0) = 0"
    and cs: "\<And>k. k < n \<Longrightarrow> val F (c (Suc k)) =
           (val F (a_i k) AND val F (b_i k)) OR (val F (a_i k) AND val F (c k))
             OR (val F (b_i k) AND val F (c k))"
    and ss: "\<And>k. k < n \<Longrightarrow> val F (s_o k) = val F (a_i k) XOR val F (b_i k) XOR val F (c k)"
  shows "m \<le> n \<Longrightarrow>
     bus_val s_o m F + val F (c m) * 2 ^ m = bus_val a_i m F + bus_val b_i m F
     \<and> val F (c m) \<in> {0, 1} \<and> 0 \<le> bus_val s_o m F \<and> bus_val s_o m F < 2 ^ m"
proof (induction m)
  case 0
  show ?case by (simp add: c0)
next
  case (Suc m)
  then have m: "m < n" by simp
  define a where "a = val F (a_i m)"
  define b where "b = val F (b_i m)"
  define ci where "ci = val F (c m)"
  define S where "S = bus_val s_o m F"
  define P :: int where "P = 2 ^ m"
  have ih: "S + ci * P = bus_val a_i m F + bus_val b_i m F" "ci \<in> {0, 1}" "0 \<le> S" "S < P"
    using Suc.IH m by (simp_all add: S_def ci_def P_def)
  have ab: "a \<in> {0, 1}" "b \<in> {0, 1}"
    using bits [OF m] by (simp_all add: a_def b_def)
  note fa = full_adder_bits [OF ab ih(2)]
  have co: "val F (c (Suc m)) = (a AND b) OR (a AND ci) OR (b AND ci)"
    using cs [OF m] by (simp add: a_def b_def ci_def)
  have so: "val F (s_o m) = a XOR b XOR ci"
    using ss [OF m] by (simp add: a_def b_def ci_def)
  define s where "s = a XOR b XOR ci"
  define c' where "c' = (a AND b) OR (a AND ci) OR (b AND ci)"
  have f: "s + 2 * c' = a + b + ci" "s \<in> {0, 1}" "c' \<in> {0, 1}"
    using fa by (simp_all add: s_def c'_def)
  have "(s + 2 * c') * P = (a + b + ci) * P" using f(1) by simp
  then have "S + s * P + c' * (2 * P) = (S + ci * P) + a * P + b * P"
    by (simp add: algebra_simps)
  then have e: "S + s * P + c' * (2 * P)
      = (bus_val a_i m F + a * P) + (bus_val b_i m F + b * P)"
    using ih(1) by simp
  have P: "0 < P" by (simp add: P_def)
  have "s * P \<le> P" "0 \<le> s * P" using f(2) P by auto
  then have bd: "0 \<le> S + s * P" "S + s * P < 2 * P" using ih by linarith+
  show ?case
    using e bd f(3)
    by (simp add: co so a_def [symmetric] b_def [symmetric] S_def [symmetric]
        P_def [symmetric] s_def [symmetric] c'_def [symmetric] ci_def [symmetric])
qed

lemma sum_carry_unique:
  fixes S C x :: int
  assumes "S + C * 2 ^ n = x" and "0 \<le> S" and "S < 2 ^ n"
  shows "S = x mod 2 ^ n" and "C = x div 2 ^ n"
proof -
  have x: "x = S + C * 2 ^ n" using assms(1) by simp
  show "S = x mod 2 ^ n" unfolding x using assms(2,3) by simp
  show "C = x div 2 ^ n" unfolding x using assms(2,3) by simp
qed


lemma mod_pow2_Suc: "(x::int) mod 2 ^ Suc n = x mod 2 ^ n + bit_of x n * 2 ^ n"
proof -
  have "x mod (2 ^ n * 2) = 2 ^ n * (x div 2 ^ n mod 2) + x mod 2 ^ n"
    by (rule zmod_zmult2_eq) simp
  then show ?thesis by (simp add: bit_of_def mult.commute)
qed

lemma bus_val_bits:
  "(\<And>k. k < n \<Longrightarrow> val st (bus k) = bit_of x k) \<Longrightarrow> bus_val bus n st = x mod 2 ^ n"
proof (induction n)
  case 0
  show ?case by simp
next
  case (Suc n)
  have "bus_val bus n st = x mod 2 ^ n"
    using Suc.prems by (intro Suc.IH) simp
  then show ?case
    using Suc.prems [of n] by (simp only: bus_val.simps mod_pow2_Suc)
qed

lemma drive_bus_Suc:
  "drive_bus bus (Suc n) x st = drive (bus n) (bit_of x n) (drive_bus bus n x st)"
  by (simp add: drive_bus_def)

lemma drive_bus_at:
  assumes "inj bus"
  shows "val (drive_bus bus n x st) (bus k) = (if k < n then bit_of x k else val st (bus k))"
    and "nxt (drive_bus bus n x st) (bus k) = (if k < n then bit_of x k else nxt st (bus k))"
proof -
  have d: "bus i = bus j \<longleftrightarrow> i = j" for i j
    using assms by (auto dest: injD)
  show "val (drive_bus bus n x st) (bus k) = (if k < n then bit_of x k else val st (bus k))"
    by (induction n) (simp_all add: drive_bus_Suc drive_def d drive_bus_def)
  show "nxt (drive_bus bus n x st) (bus k) = (if k < n then bit_of x k else nxt st (bus k))"
    by (induction n) (simp_all add: drive_bus_Suc drive_def d drive_bus_def)
qed

lemma drive_bus_other:
  assumes "\<And>k. s \<noteq> bus k"
  shows "val (drive_bus bus n x st) s = val st s"
    and "nxt (drive_bus bus n x st) s = nxt st s"
proof -
  show "val (drive_bus bus n x st) s = val st s"
    by (induction n) (simp_all add: drive_bus_Suc drive_def assms drive_bus_def)
  show "nxt (drive_bus bus n x st) s = nxt st s"
    by (induction n) (simp_all add: drive_bus_Suc drive_def assms drive_bus_def)
qed

lemma settle_reaches:
  fixes bs :: "'s block list" and R :: "'s sigs \<Rightarrow> 's sigs"
  defines "R \<equiv> \<lambda>st. commit (run_blocks bs st)"
  assumes "list_all (\<lambda>s. val ((R ^^ Suc j) st) s = val ((R ^^ j) st) s) sigs" and "j < fuel"
  shows "\<exists>m \<le> j. settle fuel sigs bs st = Some ((R ^^ Suc m) st)
           \<and> list_all (\<lambda>s. val ((R ^^ Suc m) st) s = val ((R ^^ m) st) s) sigs"
  using assms(2,3)
proof (induction j arbitrary: st fuel)
  case 0
  then obtain f where f: "fuel = Suc f" by (cases fuel) simp_all
  show ?case
    unfolding f using 0(1) by (simp add: R_def Let_def)
next
  case (Suc j)
  then obtain f where f: "fuel = Suc f" and jf: "j < f" by (cases fuel) simp_all
  show ?case
  proof (cases "list_all (\<lambda>s. val (R st) s = val st s) sigs")
    case True
    then have "settle fuel sigs bs st = Some (R st)"
      unfolding f by (simp add: R_def Let_def)
    with True show ?thesis by (intro exI [of _ 0]) simp
  next
    case False
    then have e: "settle fuel sigs bs st = settle f sigs bs (R st)"
      unfolding f by (simp add: R_def Let_def)
    have "list_all (\<lambda>s. val ((R ^^ Suc j) (R st)) s = val ((R ^^ j) (R st)) s) sigs"
      using Suc.prems(1) by (simp only: funpow_Suc_right o_apply)
    from Suc.IH [OF this jf] obtain m where m: "m \<le> j"
      "settle f sigs bs (R st) = Some ((R ^^ Suc m) (R st))"
      "list_all (\<lambda>s. val ((R ^^ Suc m) (R st)) s = val ((R ^^ m) (R st)) s) sigs"
      by blast
    have "(R ^^ Suc m) (R st) = (R ^^ Suc (Suc m)) st" "(R ^^ m) (R st) = (R ^^ Suc m) st"
      by (simp_all only: funpow_Suc_right o_apply)
    with m e show ?thesis
      by (intro exI [of _ "Suc m"]) simp
  qed
qed


lemma ripple_stable:
  fixes R :: "'s sigs \<Rightarrow> 's sigs" and a_i b_i s_o c :: "nat \<Rightarrow> 's"
  assumes p1: "\<And>st. val (R st) (c 0) = 0"
    and p2: "\<And>st k. k < n \<Longrightarrow> val (R st) (c (Suc k)) =
           (val st (a_i k) AND val st (b_i k)) OR (val st (a_i k) AND val st (c k))
             OR (val st (b_i k) AND val st (c k))"
    and p3: "\<And>st k. k < n \<Longrightarrow> val (R st) (s_o k) =
           val st (a_i k) XOR val st (b_i k) XOR val st (c k)"
    and p4: "\<And>st k. k < n \<Longrightarrow>
           val (R st) (a_i k) = nxt st (a_i k) \<and> val (R st) (b_i k) = nxt st (b_i k)"
    and p5: "\<And>st. nxt (R st) = val (R st)"
    and q: "\<And>k. k < n \<Longrightarrow>
           nxt st (a_i k) = val st (a_i k) \<and> nxt st (b_i k) = val st (b_i k)"
  shows "k < n \<Longrightarrow> val ((R ^^ j) st) (a_i k) = val st (a_i k)
           \<and> val ((R ^^ j) st) (b_i k) = val st (b_i k)"
    and "i \<le> n \<Longrightarrow> i < j \<Longrightarrow> val ((R ^^ Suc j) st) (c i) = val ((R ^^ j) st) (c i)"
    and "i < n \<Longrightarrow> Suc i < j \<Longrightarrow> val ((R ^^ Suc j) st) (s_o i) = val ((R ^^ j) st) (s_o i)"
proof -
  have qj: "nxt ((R ^^ j) st) (a_i k) = val ((R ^^ j) st) (a_i k)
      \<and> nxt ((R ^^ j) st) (b_i k) = val ((R ^^ j) st) (b_i k)" if "k < n" for j k
  proof (cases j)
    case 0
    then show ?thesis using q [OF that] by simp
  next
    case (Suc j')
    then show ?thesis by (simp add: p5)
  qed
  have inp: "val ((R ^^ j) st) (a_i k) = val st (a_i k)
      \<and> val ((R ^^ j) st) (b_i k) = val st (b_i k)" if "k < n" for j k
  proof (induction j)
    case 0
    show ?case by simp
  next
    case (Suc j)
    have "val ((R ^^ Suc j) st) (a_i k) = nxt ((R ^^ j) st) (a_i k)"
      "val ((R ^^ Suc j) st) (b_i k) = nxt ((R ^^ j) st) (b_i k)"
      using p4 [OF that, of "(R ^^ j) st"] by simp_all
    then show ?case using qj [OF that, of j] Suc.IH by simp
  qed
  show "k < n \<Longrightarrow> val ((R ^^ j) st) (a_i k) = val st (a_i k)
           \<and> val ((R ^^ j) st) (b_i k) = val st (b_i k)"
    by (rule inp)
  have car: "i \<le> n \<Longrightarrow> i < j \<Longrightarrow> val ((R ^^ Suc j) st) (c i) = val ((R ^^ j) st) (c i)"
    for i j
  proof (induction j arbitrary: i)
    case 0
    then show ?case by simp
  next
    case (Suc j)
    show ?case
    proof (cases i)
      case 0
      have "val ((R ^^ Suc (Suc j)) st) (c 0) = 0" "val ((R ^^ Suc j) st) (c 0) = 0"
        using p1 by simp_all
      then show ?thesis using 0 by simp
    next
      case (Suc i')
      with Suc.prems have i': "i' < n" "i' \<le> n" "i' < j" by simp_all
      have e: "val ((R ^^ Suc j) st) (c i') = val ((R ^^ j) st) (c i')"
        using Suc.IH [OF i'(2,3)] .
      have "val ((R ^^ Suc (Suc j)) st) (c (Suc i')) =
           (val ((R ^^ Suc j) st) (a_i i') AND val ((R ^^ Suc j) st) (b_i i'))
             OR (val ((R ^^ Suc j) st) (a_i i') AND val ((R ^^ Suc j) st) (c i'))
             OR (val ((R ^^ Suc j) st) (b_i i') AND val ((R ^^ Suc j) st) (c i'))"
        using p2 [OF i'(1), of "(R ^^ Suc j) st"] by simp
      moreover have "val ((R ^^ Suc j) st) (c (Suc i')) =
           (val ((R ^^ j) st) (a_i i') AND val ((R ^^ j) st) (b_i i'))
             OR (val ((R ^^ j) st) (a_i i') AND val ((R ^^ j) st) (c i'))
             OR (val ((R ^^ j) st) (b_i i') AND val ((R ^^ j) st) (c i'))"
        using p2 [OF i'(1), of "(R ^^ j) st"] by simp
      ultimately show ?thesis
        unfolding Suc using inp [OF i'(1), of "Suc j"] inp [OF i'(1), of j] e by simp
    qed
  qed
  show "i \<le> n \<Longrightarrow> i < j \<Longrightarrow> val ((R ^^ Suc j) st) (c i) = val ((R ^^ j) st) (c i)"
    by (rule car)
  show "i < n \<Longrightarrow> Suc i < j \<Longrightarrow> val ((R ^^ Suc j) st) (s_o i) = val ((R ^^ j) st) (s_o i)"
  proof -
    assume i: "i < n" "Suc i < j"
    then obtain j' where j: "j = Suc j'" "i < j'" by (cases j) simp_all
    have e: "val ((R ^^ Suc j') st) (c i) = val ((R ^^ j') st) (c i)"
      using car [of i j'] i(1) j(2) by simp
    have "val ((R ^^ Suc (Suc j')) st) (s_o i) =
        val ((R ^^ Suc j') st) (a_i i) XOR val ((R ^^ Suc j') st) (b_i i)
          XOR val ((R ^^ Suc j') st) (c i)"
      using p3 [OF i(1), of "(R ^^ Suc j') st"] by simp
    moreover have "val ((R ^^ Suc j') st) (s_o i) =
        val ((R ^^ j') st) (a_i i) XOR val ((R ^^ j') st) (b_i i) XOR val ((R ^^ j') st) (c i)"
      using p3 [OF i(1), of "(R ^^ j') st"] by simp
    ultimately show ?thesis
      unfolding j(1) using inp [OF i(1), of "Suc j'"] inp [OF i(1), of j'] e by simp
  qed
qed


lemma list_all_adder_sigs:
  "list_all P (adder_sigs n) \<longleftrightarrow>
     (\<forall>k<n. P (A_i k) \<and> P (B_i k) \<and> P (S_o k)) \<and> (\<forall>k\<le>n. P (Carry k))"
  by (auto simp: adder_sigs_def list_all_iff less_Suc_eq_le simp del: upt_Suc)

text \<open>
  Claim C3. For the \<open>n\<close>-stage ripple-carry adder with the carry input of stage 0 tied
  to 0 and inputs \<open>a\<close>, \<open>b\<close> in \<open>[0, 2 ^ n)\<close>: from any store, the combinational blocks
  settle within \<open>n + 2\<close> evaluation rounds, and at the fixed point the sum bus holds
  \<open>(a + b) mod 2 ^ n\<close> and the carry bit \<open>c[n]\<close> holds \<open>(a + b) div 2 ^ n\<close>, that is
  \<open>(a + b) >> n\<close>.
\<close>
theorem adder_sum:
  assumes a: "0 \<le> a" "a < 2 ^ n" and b: "0 \<le> b" "b < 2 ^ n" and fuel: "n + 2 \<le> fuel"
  shows "\<exists>st'. adder_sim fuel n a b st = Some st'
           \<and> bus_val S_o n st' = (a + b) mod 2 ^ n
           \<and> val st' (Carry n) = (a + b) div 2 ^ n"
proof -
  define R where "R = (\<lambda>st :: asig sigs. commit (run_blocks (adder A_i B_i S_o Carry n) st))"
  define D where "D = drive_bus A_i n a (drive_bus B_i n b st)"
  have inj: "inj S_o" "inj Carry" "inj A_i" "inj B_i" by (simp_all add: inj_def)
  have dis: "\<And>i j. S_o i \<noteq> Carry j" by simp
  have vR: "val (R st) s = nxt (run_blocks (adder A_i B_i S_o Carry n) st) s" for st s
    by (simp add: R_def commit_def)
  have p1: "\<And>st. val (R st) (Carry 0) = 0"
    unfolding vR by (rule adder_run(1) [OF inj(1,2) dis])
  have p2: "\<And>st k. k < n \<Longrightarrow> val (R st) (Carry (Suc k)) =
           (val st (A_i k) AND val st (B_i k)) OR (val st (A_i k) AND val st (Carry k))
             OR (val st (B_i k) AND val st (Carry k))"
    unfolding vR by (rule adder_run(2) [OF inj(1,2) dis])
  have p3: "\<And>st k. k < n \<Longrightarrow> val (R st) (S_o k) =
           val st (A_i k) XOR val st (B_i k) XOR val st (Carry k)"
    unfolding vR by (rule adder_run(3) [OF inj(1,2) dis])
  have p4: "\<And>st k. k < n \<Longrightarrow>
           val (R st) (A_i k) = nxt st (A_i k) \<and> val (R st) (B_i k) = nxt st (B_i k)"
    unfolding vR by (simp add: adder_run(4) [OF inj(1,2) dis])
  have p5: "\<And>st. nxt (R st) = val (R st)"
    by (simp add: R_def commit_def)
  have dA: "val D (A_i k) = bit_of a k" "nxt D (A_i k) = bit_of a k" if "k < n" for k
    using that by (simp_all add: D_def drive_bus_at [OF inj(3)])
  have dB: "val D (B_i k) = bit_of b k" "nxt D (B_i k) = bit_of b k" if "k < n" for k
    using that by (simp_all add: D_def drive_bus_other drive_bus_at [OF inj(4)])
  have q: "\<And>k. k < n \<Longrightarrow>
           nxt D (A_i k) = val D (A_i k) \<and> nxt D (B_i k) = val D (B_i k)"
    by (simp add: dA dB)
  have rs: "k < n \<Longrightarrow> val ((R ^^ j) D) (A_i k) = val D (A_i k)
           \<and> val ((R ^^ j) D) (B_i k) = val D (B_i k)"
    "i \<le> n \<Longrightarrow> i < j \<Longrightarrow> val ((R ^^ Suc j) D) (Carry i) = val ((R ^^ j) D) (Carry i)"
    "i < n \<Longrightarrow> Suc i < j \<Longrightarrow> val ((R ^^ Suc j) D) (S_o i) = val ((R ^^ j) D) (S_o i)"
    for i j k
  proof -
    show "k < n \<Longrightarrow> val ((R ^^ j) D) (A_i k) = val D (A_i k)
           \<and> val ((R ^^ j) D) (B_i k) = val D (B_i k)"
      by (rule ripple_stable(1) [of R Carry n A_i B_i S_o D]) (simp_all add: p1 p2 p3 p4 p5 q)
    show "i \<le> n \<Longrightarrow> i < j \<Longrightarrow>
        val ((R ^^ Suc j) D) (Carry i) = val ((R ^^ j) D) (Carry i)"
      by (rule ripple_stable(2) [of R Carry n A_i B_i S_o D]) (simp_all add: p1 p2 p3 p4 p5 q)
    show "i < n \<Longrightarrow> Suc i < j \<Longrightarrow>
        val ((R ^^ Suc j) D) (S_o i) = val ((R ^^ j) D) (S_o i)"
      by (rule ripple_stable(3) [of R Carry n A_i B_i S_o D]) (simp_all add: p1 p2 p3 p4 p5 q)
  qed
  have "list_all (\<lambda>s. val ((R ^^ Suc (Suc n)) D) s = val ((R ^^ Suc n) D) s) (adder_sigs n)"
    unfolding list_all_adder_sigs
  proof (intro conjI allI impI)
    fix k assume k: "k < n"
    show "val ((R ^^ Suc (Suc n)) D) (A_i k) = val ((R ^^ Suc n) D) (A_i k)"
      using rs(1) [OF k, of "Suc (Suc n)"] rs(1) [OF k, of "Suc n"] by simp
    show "val ((R ^^ Suc (Suc n)) D) (B_i k) = val ((R ^^ Suc n) D) (B_i k)"
      using rs(1) [OF k, of "Suc (Suc n)"] rs(1) [OF k, of "Suc n"] by simp
    show "val ((R ^^ Suc (Suc n)) D) (S_o k) = val ((R ^^ Suc n) D) (S_o k)"
      using k by (intro rs(3)) simp_all
  next
    fix k assume k: "k \<le> n"
    show "val ((R ^^ Suc (Suc n)) D) (Carry k) = val ((R ^^ Suc n) D) (Carry k)"
      using k by (intro rs(2)) simp_all
  qed
  moreover have "Suc n < fuel" using fuel by simp
  ultimately obtain m where m:
    "settle fuel (adder_sigs n) (adder A_i B_i S_o Carry n) D = Some ((R ^^ Suc m) D)"
    "list_all (\<lambda>s. val ((R ^^ Suc m) D) s = val ((R ^^ m) D) s) (adder_sigs n)"
    using settle_reaches [of "Suc n" "adder A_i B_i S_o Carry n" D "adder_sigs n" fuel]
    unfolding R_def by blast
  define F where "F = (R ^^ Suc m) D"
  define G where "G = (R ^^ m) D"
  have FG: "F = R G" by (simp add: F_def G_def)
  have same: "(\<forall>k<n. val F (A_i k) = val G (A_i k) \<and> val F (B_i k) = val G (B_i k)
      \<and> val F (S_o k) = val G (S_o k)) \<and> (\<forall>k\<le>n. val F (Carry k) = val G (Carry k))"
    using m(2) unfolding list_all_adder_sigs F_def G_def .
  have bits: "val F (A_i k) = bit_of a k \<and> val F (B_i k) = bit_of b k" if "k < n" for k
    using rs(1) [OF that, of "Suc m"] dA(1) [OF that] dB(1) [OF that] by (simp add: F_def)
  have c0: "val F (Carry 0) = 0" unfolding FG by (rule p1)
  have cs: "val F (Carry (Suc k)) =
           (val F (A_i k) AND val F (B_i k)) OR (val F (A_i k) AND val F (Carry k))
             OR (val F (B_i k) AND val F (Carry k))" if "k < n" for k
    using p2 [OF that, of G] same that by (simp add: FG [symmetric])
  have ss: "val F (S_o k) = val F (A_i k) XOR val F (B_i k) XOR val F (Carry k)"
    if "k < n" for k
    using p3 [OF that, of G] same that by (simp add: FG [symmetric])
  have br: "val F (A_i k) \<in> {0, 1} \<and> val F (B_i k) \<in> {0, 1}" if "k < n" for k
    using bits [OF that] bit_of_range [of a k] bit_of_range [of b k] by simp
  note fp = adder_fixed_point [of n F A_i B_i Carry S_o n, OF br c0 cs ss le_refl]
  have "bus_val A_i n F = a mod 2 ^ n" "bus_val B_i n F = b mod 2 ^ n"
    using bits by (simp_all add: bus_val_bits)
  then have "bus_val A_i n F = a" "bus_val B_i n F = b"
    using a b by simp_all
  with fp have e: "bus_val S_o n F + val F (Carry n) * 2 ^ n = a + b"
    and r: "0 \<le> bus_val S_o n F" "bus_val S_o n F < 2 ^ n"
    by simp_all
  have "bus_val S_o n F = (a + b) mod 2 ^ n" "val F (Carry n) = (a + b) div 2 ^ n"
    using sum_carry_unique [OF e r] by simp_all
  with m(1) show ?thesis
    by (simp add: adder_sim_def D_def F_def)
qed

theorem adder_sum_witness:
  "\<exists>st'. adder_sim 6 4 11 7 (power_up (\<lambda>s. 0)) = Some st'
      \<and> bus_val S_o 4 st' = 2 \<and> val st' (Carry 4) = 1"
proof -
  have h: "(0::int) \<le> 11" "(11::int) < 2 ^ 4" "(0::int) \<le> 7" "(7::int) < 2 ^ 4"
    "(4::nat) + 2 \<le> 6"
    by simp_all
  show ?thesis
    using adder_sum [OF h, of "power_up (\<lambda>s. 0)"] by simp
qed

section \<open>The counter and the blinker\<close>

lemma register_run:
  fixes d_i q_o :: "nat \<Rightarrow> 's"
  assumes "inj q_o"
  shows "k < n \<Longrightarrow> nxt (run_blocks (register d_i q_o n) st) (q_o k) = val st (d_i k)"
    and "(\<And>k. s \<noteq> q_o k) \<Longrightarrow> nxt (run_blocks (register d_i q_o n) st) s = nxt st s"
proof -
  have d: "q_o i = q_o j \<longleftrightarrow> i = j" for i j
    using assms by (auto dest: injD)
  have step: "nxt (run_blocks (register d_i q_o (Suc n)) st)
      = (nxt (run_blocks (register d_i q_o n) st))(q_o n := val st (d_i n))" for n
    by (simp add: register_def run_blocks_snoc exec_block_def dff_def)
  show "k < n \<Longrightarrow> nxt (run_blocks (register d_i q_o n) st) (q_o k) = val st (d_i k)"
  proof (induction n)
    case 0
    then show ?case by simp
  next
    case (Suc n)
    then show ?case unfolding step by (cases "k = n") (simp_all add: d)
  qed
  show "(\<And>k. s \<noteq> q_o k) \<Longrightarrow> nxt (run_blocks (register d_i q_o n) st) s = nxt st s"
  proof (induction n)
    case 0
    show ?case by (simp add: register_def run_blocks_def)
  next
    case (Suc n)
    then show ?case unfolding step by simp
  qed
qed

lemma bus_val_cong:
  "(\<And>k. k < n \<Longrightarrow> val s (bus k) = val t (bus' k)) \<Longrightarrow> bus_val bus n s = bus_val bus' n t"
  by (induction n) simp_all

lemma blinker_round:
  fixes len :: nat and R :: "bsig sigs \<Rightarrow> bsig sigs"
  defines "R \<equiv> \<lambda>st :: bsig sigs.
      commit (run_blocks (comb_blocks (blinker Led_o Cnt One Next_cnt Cry len)) st)"
  shows "val (R st) (Cry 0) = 0"
    and "k < len \<Longrightarrow> val (R st) (Cry (Suc k)) =
           (val st (One k) AND val st (Cnt k)) OR (val st (One k) AND val st (Cry k))
             OR (val st (Cnt k) AND val st (Cry k))"
    and "k < len \<Longrightarrow> val (R st) (Next_cnt k) =
           val st (One k) XOR val st (Cnt k) XOR val st (Cry k)"
    and "val (R st) (One k) = nxt st (One k) \<and> val (R st) (Cnt k) = nxt st (Cnt k)"
    and "nxt (R st) = val (R st)"
    and "val (R st) Led_o = val st (Cnt (len - 1))"
proof -
  have inj: "inj Next_cnt" "inj Cry" by (simp_all add: inj_def)
  have dis: "\<And>i j. Next_cnt i \<noteq> Cry j" by simp
  let ?A = "run_blocks (adder One Cnt Next_cnt Cry len) st"
  have e: "R st = commit (exec_block (blinker_output_logic Led_o Cnt len) ?A)"
    by (simp add: R_def blinker_def counter_def run_blocks_snoc)
  have v: "val (R st) s = (if s = Led_o then val st (Cnt (len - 1)) else nxt ?A s)" for s
    unfolding e by (simp add: commit_def exec_block_def blinker_output_logic_def)
  show "val (R st) (Cry 0) = 0"
    unfolding v using adder_run(1) [OF inj dis, of One Cnt len st] by simp
  show "k < len \<Longrightarrow> val (R st) (Cry (Suc k)) =
           (val st (One k) AND val st (Cnt k)) OR (val st (One k) AND val st (Cry k))
             OR (val st (Cnt k) AND val st (Cry k))"
    unfolding v using adder_run(2) [OF inj dis, of k len One Cnt st] by simp
  show "k < len \<Longrightarrow> val (R st) (Next_cnt k) =
           val st (One k) XOR val st (Cnt k) XOR val st (Cry k)"
    unfolding v using adder_run(3) [OF inj dis, of k len One Cnt st] by simp
  show "val (R st) (One k) = nxt st (One k) \<and> val (R st) (Cnt k) = nxt st (Cnt k)"
    unfolding v by (simp add: adder_run(4) [OF inj dis])
  show "nxt (R st) = val (R st)"
    by (simp add: R_def commit_def)
  show "val (R st) Led_o = val st (Cnt (len - 1))"
    unfolding v by simp
qed


lemma list_all_blinker_sigs:
  "list_all P (blinker_sigs n) \<longleftrightarrow>
     P Led_o \<and> (\<forall>k<n. P (Cnt k) \<and> P (One k) \<and> P (Next_cnt k)) \<and> (\<forall>k\<le>n. P (Cry k))"
  by (auto simp: blinker_sigs_def list_all_iff less_Suc_eq_le simp del: upt_Suc)

lemma blinker_iterates:
  fixes len :: nat and R :: "bsig sigs \<Rightarrow> bsig sigs"
  defines "R \<equiv> \<lambda>st :: bsig sigs.
      commit (run_blocks (comb_blocks (blinker Led_o Cnt One Next_cnt Cry len)) st)"
  assumes q: "\<And>k. k < len \<Longrightarrow>
        nxt Q (One k) = val Q (One k) \<and> nxt Q (Cnt k) = val Q (Cnt k)"
  shows "k < len \<Longrightarrow> val ((R ^^ j) Q) (One k) = val Q (One k)
           \<and> val ((R ^^ j) Q) (Cnt k) = val Q (Cnt k)"
    and "i \<le> len \<Longrightarrow> i < j \<Longrightarrow> val ((R ^^ Suc j) Q) (Cry i) = val ((R ^^ j) Q) (Cry i)"
    and "i < len \<Longrightarrow> Suc i < j \<Longrightarrow>
       val ((R ^^ Suc j) Q) (Next_cnt i) = val ((R ^^ j) Q) (Next_cnt i)"
proof -
  have p1: "\<And>st. val (R st) (Cry 0) = 0"
    unfolding R_def by (rule blinker_round(1))
  have p2: "\<And>st k. k < len \<Longrightarrow> val (R st) (Cry (Suc k)) =
           (val st (One k) AND val st (Cnt k)) OR (val st (One k) AND val st (Cry k))
             OR (val st (Cnt k) AND val st (Cry k))"
    unfolding R_def by (rule blinker_round(2))
  have p3: "\<And>st k. k < len \<Longrightarrow> val (R st) (Next_cnt k) =
           val st (One k) XOR val st (Cnt k) XOR val st (Cry k)"
    unfolding R_def by (rule blinker_round(3))
  have p4: "\<And>st k. k < len \<Longrightarrow>
           val (R st) (One k) = nxt st (One k) \<and> val (R st) (Cnt k) = nxt st (Cnt k)"
    unfolding R_def by (rule blinker_round(4))
  have p5: "\<And>st. nxt (R st) = val (R st)"
    unfolding R_def by (rule blinker_round(5))
  show "k < len \<Longrightarrow> val ((R ^^ j) Q) (One k) = val Q (One k)
           \<and> val ((R ^^ j) Q) (Cnt k) = val Q (Cnt k)"
    by (rule ripple_stable(1) [of R Cry len One Cnt Next_cnt Q, OF p1 p2 p3 p4 p5 q])
  show "i \<le> len \<Longrightarrow> i < j \<Longrightarrow> val ((R ^^ Suc j) Q) (Cry i) = val ((R ^^ j) Q) (Cry i)"
    by (rule ripple_stable(2) [of R Cry len One Cnt Next_cnt Q, OF p1 p2 p3 p4 p5 q])
  show "i < len \<Longrightarrow> Suc i < j \<Longrightarrow>
       val ((R ^^ Suc j) Q) (Next_cnt i) = val ((R ^^ j) Q) (Next_cnt i)"
    by (rule ripple_stable(3) [of R Cry len One Cnt Next_cnt Q, OF p1 p2 p3 p4 p5 q])
qed

lemma blinker_settle:
  assumes q: "\<And>k. k < len \<Longrightarrow>
        nxt Q (One k) = val Q (One k) \<and> nxt Q (Cnt k) = val Q (Cnt k)"
    and bits: "\<And>k. k < len \<Longrightarrow> val Q (One k) \<in> {0, 1} \<and> val Q (Cnt k) \<in> {0, 1}"
    and len: "1 \<le> len" and fuel: "len + 2 \<le> fuel"
  shows "\<exists>F. settle fuel (blinker_sigs len)
             (comb_blocks (blinker Led_o Cnt One Next_cnt Cry len)) Q = Some F
           \<and> nxt F = val F
           \<and> (\<forall>k<len. val F (One k) = val Q (One k) \<and> val F (Cnt k) = val Q (Cnt k)
                 \<and> val F (Next_cnt k) \<in> {0, 1})
           \<and> bus_val Next_cnt len F = (bus_val One len Q + bus_val Cnt len Q) mod 2 ^ len
           \<and> val F Led_o = val Q (Cnt (len - 1))"
proof -
  define R where "R = (\<lambda>st :: bsig sigs.
      commit (run_blocks (comb_blocks (blinker Led_o Cnt One Next_cnt Cry len)) st))"
  have p1: "\<And>st. val (R st) (Cry 0) = 0"
    unfolding R_def by (rule blinker_round(1))
  have p2: "\<And>st k. k < len \<Longrightarrow> val (R st) (Cry (Suc k)) =
           (val st (One k) AND val st (Cnt k)) OR (val st (One k) AND val st (Cry k))
             OR (val st (Cnt k) AND val st (Cry k))"
    unfolding R_def by (rule blinker_round(2))
  have p3: "\<And>st k. k < len \<Longrightarrow> val (R st) (Next_cnt k) =
           val st (One k) XOR val st (Cnt k) XOR val st (Cry k)"
    unfolding R_def by (rule blinker_round(3))
  have p4: "\<And>st k. k < len \<Longrightarrow>
           val (R st) (One k) = nxt st (One k) \<and> val (R st) (Cnt k) = nxt st (Cnt k)"
    unfolding R_def by (rule blinker_round(4))
  have p5: "\<And>st. nxt (R st) = val (R st)"
    unfolding R_def by (rule blinker_round(5))
  have p6: "\<And>st. val (R st) Led_o = val st (Cnt (len - 1))"
    unfolding R_def by (rule blinker_round(6))
  have rs: "k < len \<Longrightarrow> val ((R ^^ j) Q) (One k) = val Q (One k)
           \<and> val ((R ^^ j) Q) (Cnt k) = val Q (Cnt k)"
    "i \<le> len \<Longrightarrow> i < j \<Longrightarrow> val ((R ^^ Suc j) Q) (Cry i) = val ((R ^^ j) Q) (Cry i)"
    "i < len \<Longrightarrow> Suc i < j \<Longrightarrow>
       val ((R ^^ Suc j) Q) (Next_cnt i) = val ((R ^^ j) Q) (Next_cnt i)"
    for i j k
    unfolding R_def by (rule blinker_iterates [OF q]; assumption)+
  have msb: "len - 1 < len" using len by simp
  have led: "val ((R ^^ Suc j) Q) Led_o = val Q (Cnt (len - 1))" for j
    using p6 [of "(R ^^ j) Q"] rs(1) [OF msb, of j] by simp
  have "list_all (\<lambda>s. val ((R ^^ Suc (Suc len)) Q) s = val ((R ^^ Suc len) Q) s)
      (blinker_sigs len)"
    unfolding list_all_blinker_sigs
  proof (intro conjI allI impI)
    show "val ((R ^^ Suc (Suc len)) Q) Led_o = val ((R ^^ Suc len) Q) Led_o"
      by (simp only: led)
  next
    fix k assume k: "k < len"
    show "val ((R ^^ Suc (Suc len)) Q) (Cnt k) = val ((R ^^ Suc len) Q) (Cnt k)"
      using rs(1) [OF k, of "Suc (Suc len)"] rs(1) [OF k, of "Suc len"] by simp
    show "val ((R ^^ Suc (Suc len)) Q) (One k) = val ((R ^^ Suc len) Q) (One k)"
      using rs(1) [OF k, of "Suc (Suc len)"] rs(1) [OF k, of "Suc len"] by simp
    show "val ((R ^^ Suc (Suc len)) Q) (Next_cnt k) = val ((R ^^ Suc len) Q) (Next_cnt k)"
      using k by (intro rs(3)) simp_all
  next
    fix k assume k: "k \<le> len"
    show "val ((R ^^ Suc (Suc len)) Q) (Cry k) = val ((R ^^ Suc len) Q) (Cry k)"
      using k by (intro rs(2)) simp_all
  qed
  moreover have "Suc len < fuel" using fuel by simp
  ultimately have "\<exists>m\<le>Suc len.
      settle fuel (blinker_sigs len) (comb_blocks (blinker Led_o Cnt One Next_cnt Cry len)) Q
       = Some ((R ^^ Suc m) Q)
      \<and> list_all (\<lambda>s. val ((R ^^ Suc m) Q) s = val ((R ^^ m) Q) s) (blinker_sigs len)"
    unfolding R_def by (rule settle_reaches)
  then obtain m where m:
    "settle fuel (blinker_sigs len) (comb_blocks (blinker Led_o Cnt One Next_cnt Cry len)) Q
       = Some ((R ^^ Suc m) Q)"
    "list_all (\<lambda>s. val ((R ^^ Suc m) Q) s = val ((R ^^ m) Q) s) (blinker_sigs len)"
    by (elim exE conjE)
  define F where "F = (R ^^ Suc m) Q"
  define G where "G = (R ^^ m) Q"
  have FG: "F = R G" by (simp add: F_def G_def)
  have same: "(\<forall>k<len. val F (Cnt k) = val G (Cnt k) \<and> val F (One k) = val G (One k)
      \<and> val F (Next_cnt k) = val G (Next_cnt k)) \<and> (\<forall>k\<le>len. val F (Cry k) = val G (Cry k))"
    using m(2) unfolding list_all_blinker_sigs F_def G_def by simp
  have inp: "val F (One k) = val Q (One k) \<and> val F (Cnt k) = val Q (Cnt k)" if "k < len" for k
    using rs(1) [OF that, of "Suc m"] by (simp add: F_def)
  have c0: "val F (Cry 0) = 0" unfolding FG by (rule p1)
  have cs: "val F (Cry (Suc k)) =
           (val F (One k) AND val F (Cnt k)) OR (val F (One k) AND val F (Cry k))
             OR (val F (Cnt k) AND val F (Cry k))" if "k < len" for k
    using p2 [OF that, of G] same that by (simp add: FG [symmetric])
  have ss: "val F (Next_cnt k) = val F (One k) XOR val F (Cnt k) XOR val F (Cry k)"
    if "k < len" for k
    using p3 [OF that, of G] same that by (simp add: FG [symmetric])
  have br: "val F (One k) \<in> {0, 1} \<and> val F (Cnt k) \<in> {0, 1}" if "k < len" for k
    using inp [OF that] bits [OF that] by simp
  have fp: "bus_val Next_cnt j F + val F (Cry j) * 2 ^ j = bus_val One j F + bus_val Cnt j F
     \<and> val F (Cry j) \<in> {0, 1} \<and> 0 \<le> bus_val Next_cnt j F \<and> bus_val Next_cnt j F < 2 ^ j"
    if "j \<le> len" for j
    by (rule adder_fixed_point [of len F One Cnt Cry Next_cnt j])
       (erule br, rule c0, erule cs, erule ss, rule that)
  have nb: "val F (Next_cnt k) \<in> {0, 1}" if "k < len" for k
  proof -
    have "val F (Cry k) \<in> {0, 1}" using fp [of k] that by simp
    then have "val F (One k) XOR val F (Cnt k) XOR val F (Cry k) \<in> {0, 1}"
      using br [OF that] by (intro full_adder_bits(2)) simp_all
    then show ?thesis by (simp only: ss [OF that])
  qed
  have "bus_val One len F = bus_val One len Q"
    by (rule bus_val_cong) (simp add: inp)
  moreover have "bus_val Cnt len F = bus_val Cnt len Q"
    by (rule bus_val_cong) (simp add: inp)
  ultimately have e: "bus_val Next_cnt len F + val F (Cry len) * 2 ^ len
        = bus_val One len Q + bus_val Cnt len Q"
    and r: "0 \<le> bus_val Next_cnt len F" "bus_val Next_cnt len F < 2 ^ len"
    using fp [OF le_refl] by simp_all
  have sum: "bus_val Next_cnt len F = (bus_val One len Q + bus_val Cnt len Q) mod 2 ^ len"
    using sum_carry_unique(1) [OF e r] .
  have l: "val F Led_o = val Q (Cnt (len - 1))"
    unfolding F_def by (rule led)
  have n: "nxt F = val F" unfolding FG by (rule p5)
  show ?thesis
  proof (intro exI [of _ F] conjI allI impI)
    show "settle fuel (blinker_sigs len)
        (comb_blocks (blinker Led_o Cnt One Next_cnt Cry len)) Q = Some F"
      using m(1) by (simp only: F_def)
    show "nxt F = val F" by (rule n)
    show "bus_val Next_cnt len F = (bus_val One len Q + bus_val Cnt len Q) mod 2 ^ len"
      by (rule sum)
    show "val F Led_o = val Q (Cnt (len - 1))" by (rule l)
  next
    fix k assume k: "k < len"
    show "val F (One k) = val Q (One k)" using inp [OF k] by simp
    show "val F (Cnt k) = val Q (Cnt k)" using inp [OF k] by simp
    show "val F (Next_cnt k) \<in> {0, 1}" by (rule nb [OF k])
  qed
qed


lemma upt_16: "[0..<16] = [0, 1, 2, 3, 4, 5, 6, 7, 8, 9, 10, 11, 12, 13, 14, 15]"
  by code_simp

lemma blinker_sim_Suc:
  "blinker_sim fuel len k = Some st \<Longrightarrow>
     blinker_sim fuel len (Suc k)
       = clock_cycle fuel (blinker_sigs len) (blinker Led_o Cnt One Next_cnt Cry len) st"
  by (auto simp: blinker_sim_def split: option.splits)

lemma blinker_sim_invariant:
  assumes len: "1 \<le> len" and fuel: "len + 2 \<le> fuel"
  shows "\<exists>st. blinker_sim fuel len k = Some st \<and> nxt st = val st
     \<and> (\<forall>i<len. val st (One i) = bit_of 1 i \<and> val st (Cnt i) \<in> {0, 1}
            \<and> val st (Next_cnt i) \<in> {0, 1})
     \<and> bus_val Cnt len st = int k mod 2 ^ len
     \<and> bus_val Next_cnt len st = (int k mod 2 ^ len + 1) mod 2 ^ len
     \<and> val st Led_o = val st (Cnt (len - 1))"
proof (induction k)
  case 0
  define Q where "Q = (power_up blinker_init :: bsig sigs)"
  have vQ: "val Q (One i) = bit_of 1 i" "val Q (Cnt i) = 0" "nxt Q = val Q" for i
    by (simp_all add: Q_def power_up_def blinker_init_def)
  have q: "\<And>i. i < len \<Longrightarrow> nxt Q (One i) = val Q (One i) \<and> nxt Q (Cnt i) = val Q (Cnt i)"
    by (simp add: vQ(3))
  have bits: "\<And>i. i < len \<Longrightarrow> val Q (One i) \<in> {0, 1} \<and> val Q (Cnt i) \<in> {0, 1}"
    using bit_of_range [of 1] by (simp add: vQ)
  have "\<exists>F. settle fuel (blinker_sigs len)
             (comb_blocks (blinker Led_o Cnt One Next_cnt Cry len)) Q = Some F
           \<and> nxt F = val F
           \<and> (\<forall>i<len. val F (One i) = val Q (One i) \<and> val F (Cnt i) = val Q (Cnt i)
                 \<and> val F (Next_cnt i) \<in> {0, 1})
           \<and> bus_val Next_cnt len F = (bus_val One len Q + bus_val Cnt len Q) mod 2 ^ len
           \<and> val F Led_o = val Q (Cnt (len - 1))"
    by (rule blinker_settle [of len Q fuel]) (erule q, erule bits, rule len, rule fuel)
  then obtain F where F:
    "settle fuel (blinker_sigs len) (comb_blocks (blinker Led_o Cnt One Next_cnt Cry len)) Q
       = Some F"
    "nxt F = val F"
    "\<forall>i<len. val F (One i) = val Q (One i) \<and> val F (Cnt i) = val Q (Cnt i)
         \<and> val F (Next_cnt i) \<in> {0, 1}"
    "bus_val Next_cnt len F = (bus_val One len Q + bus_val Cnt len Q) mod 2 ^ len"
    "val F Led_o = val Q (Cnt (len - 1))"
    by (elim exE conjE)
  have b1: "bus_val One len Q = 1 mod 2 ^ len"
    by (rule bus_val_bits) (simp add: vQ)
  have b0: "bus_val Cnt len Q = 0 mod 2 ^ len"
    by (rule bus_val_bits) (simp add: vQ bit_of_def)
  have cF: "bus_val Cnt len F = bus_val Cnt len Q"
    by (rule bus_val_cong) (simp add: F(3))
  have msb: "len - 1 < len" using len by simp
  have s: "blinker_sim fuel len 0 = Some F"
    using F(1) by (simp add: blinker_sim_def sim_start_def Q_def)
  show ?case
  proof (intro exI [of _ F] conjI allI impI)
    show "blinker_sim fuel len 0 = Some F" by (rule s)
    show "nxt F = val F" by (rule F(2))
    show "bus_val Cnt len F = int 0 mod 2 ^ len" using cF b0 by simp
    show "bus_val Next_cnt len F = (int 0 mod 2 ^ len + 1) mod 2 ^ len"
      unfolding F(4) b1 b0 by simp
    show "val F Led_o = val F (Cnt (len - 1))" using F(3,5) msb by simp
  next
    fix i assume i: "i < len"
    show "val F (One i) = bit_of 1 i" using F(3) i vQ(1) by simp
    show "val F (Cnt i) \<in> {0, 1}" using F(3) i vQ(2) by simp
    show "val F (Next_cnt i) \<in> {0, 1}" using F(3) i by simp
  qed
next
  case (Suc k)
  then obtain st where st: "blinker_sim fuel len k = Some st" "nxt st = val st"
    "\<forall>i<len. val st (One i) = bit_of 1 i \<and> val st (Cnt i) \<in> {0, 1}
         \<and> val st (Next_cnt i) \<in> {0, 1}"
    "bus_val Cnt len st = int k mod 2 ^ len"
    "bus_val Next_cnt len st = (int k mod 2 ^ len + 1) mod 2 ^ len"
    by (elim exE conjE)
  define Q where "Q = posedge (seq_blocks (blinker Led_o Cnt One Next_cnt Cry len)) st"
  have inj: "inj Cnt" by (simp add: inj_def)
  have e: "Q = commit (run_blocks (register Next_cnt Cnt len) st)"
    by (simp add: Q_def posedge_def blinker_def counter_def)
  have vC: "val Q (Cnt i) = val st (Next_cnt i)" if "i < len" for i
    unfolding e using register_run(1) [OF inj that, of Next_cnt st] by (simp add: commit_def)
  have vO: "val Q (One i) = val st (One i)" for i
    unfolding e using register_run(2) [OF inj, of "One i" Next_cnt len st] st(2)
    by (simp add: commit_def)
  have nQ: "nxt Q = val Q" by (simp add: e commit_def)
  have q: "\<And>i. i < len \<Longrightarrow> nxt Q (One i) = val Q (One i) \<and> nxt Q (Cnt i) = val Q (Cnt i)"
    by (simp add: nQ)
  have bits: "\<And>i. i < len \<Longrightarrow> val Q (One i) \<in> {0, 1} \<and> val Q (Cnt i) \<in> {0, 1}"
    using st(3) bit_of_range [of 1] by (simp add: vC vO)
  have "\<exists>F. settle fuel (blinker_sigs len)
             (comb_blocks (blinker Led_o Cnt One Next_cnt Cry len)) Q = Some F
           \<and> nxt F = val F
           \<and> (\<forall>i<len. val F (One i) = val Q (One i) \<and> val F (Cnt i) = val Q (Cnt i)
                 \<and> val F (Next_cnt i) \<in> {0, 1})
           \<and> bus_val Next_cnt len F = (bus_val One len Q + bus_val Cnt len Q) mod 2 ^ len
           \<and> val F Led_o = val Q (Cnt (len - 1))"
    by (rule blinker_settle [of len Q fuel]) (erule q, erule bits, rule len, rule fuel)
  then obtain F where F:
    "settle fuel (blinker_sigs len) (comb_blocks (blinker Led_o Cnt One Next_cnt Cry len)) Q
       = Some F"
    "nxt F = val F"
    "\<forall>i<len. val F (One i) = val Q (One i) \<and> val F (Cnt i) = val Q (Cnt i)
         \<and> val F (Next_cnt i) \<in> {0, 1}"
    "bus_val Next_cnt len F = (bus_val One len Q + bus_val Cnt len Q) mod 2 ^ len"
    "val F Led_o = val Q (Cnt (len - 1))"
    by (elim exE conjE)
  have b1: "bus_val One len Q = 1 mod 2 ^ len"
    by (rule bus_val_bits) (simp add: vO st(3))
  have bC: "bus_val Cnt len Q = bus_val Next_cnt len st"
    by (rule bus_val_cong) (simp add: vC)
  have cF: "bus_val Cnt len F = bus_val Cnt len Q"
    by (rule bus_val_cong) (simp add: F(3))
  have k: "int (Suc k) mod 2 ^ len = (int k mod 2 ^ len + 1) mod 2 ^ len"
    by (simp add: mod_simps add.commute)
  have msb: "len - 1 < len" using len by simp
  have s: "blinker_sim fuel len (Suc k) = Some F"
    using blinker_sim_Suc [OF st(1)] F(1) by (simp add: clock_cycle_def Q_def)
  show ?case
  proof (intro exI [of _ F] conjI allI impI)
    show "blinker_sim fuel len (Suc k) = Some F" by (rule s)
    show "nxt F = val F" by (rule F(2))
    show "bus_val Cnt len F = int (Suc k) mod 2 ^ len"
      unfolding k cF bC st(5) ..
    show "bus_val Next_cnt len F = (int (Suc k) mod 2 ^ len + 1) mod 2 ^ len"
      unfolding k F(4) b1 bC st(5) by (simp add: mod_simps add.commute)
    show "val F Led_o = val F (Cnt (len - 1))" using F(3,5) msb by simp
  next
    fix i assume i: "i < len"
    show "val F (One i) = bit_of 1 i" using F(3) i vO st(3) by simp
    show "val F (Cnt i) \<in> {0, 1}" using F(3) i vC st(3) by simp
    show "val F (Next_cnt i) \<in> {0, 1}" using F(3) i by simp
  qed
qed


lemma msb_of_three_bits:
  fixes c0 c1 c2 :: int
  assumes "c0 \<in> {0, 1}" and "c1 \<in> {0, 1}" and "c2 \<in> {0, 1}"
  shows "c2 = (c0 + c1 * 2 + c2 * 4) div 4"
  using assms by auto

lemma blinker_three_bits:
  assumes fuel: "5 \<le> fuel"
  shows "map_option (bus_val Cnt 3) (blinker_sim fuel 3 k) = Some (int k mod 8)"
    and "map_option (\<lambda>st. val st Led_o) (blinker_sim fuel 3 k) = Some (int k mod 8 div 4)"
    and "map_option (\<lambda>st. val st Led_o) (blinker_sim fuel 3 k)
           = map_option (\<lambda>st. val st (Cnt 2)) (blinker_sim fuel 3 k)"
proof -
  have l: "1 \<le> (3::nat)" and f: "3 + 2 \<le> fuel" using fuel by simp_all
  have "\<exists>st. blinker_sim fuel 3 k = Some st \<and> nxt st = val st
     \<and> (\<forall>i<3. val st (One i) = bit_of 1 i \<and> val st (Cnt i) \<in> {0, 1}
            \<and> val st (Next_cnt i) \<in> {0, 1})
     \<and> bus_val Cnt 3 st = int k mod 2 ^ 3
     \<and> bus_val Next_cnt 3 st = (int k mod 2 ^ 3 + 1) mod 2 ^ 3
     \<and> val st Led_o = val st (Cnt (3 - 1))"
    by (rule blinker_sim_invariant [OF l f])
  then obtain st where st: "blinker_sim fuel 3 k = Some st"
    "\<forall>i<3. val st (One i) = bit_of 1 i \<and> val st (Cnt i) \<in> {0, 1}
            \<and> val st (Next_cnt i) \<in> {0, 1}"
    "bus_val Cnt 3 st = int k mod 2 ^ 3" "val st Led_o = val st (Cnt (3 - 1))"
    by (elim exE conjE)
  have b: "val st (Cnt 0) \<in> {0, 1}" "val st (Cnt 1) \<in> {0, 1}" "val st (Cnt 2) \<in> {0, 1}"
    using st(2) by simp_all
  have v: "bus_val Cnt 3 st = val st (Cnt 0) + val st (Cnt 1) * 2 + val st (Cnt 2) * 4"
    by (simp add: numeral_3_eq_3 numeral_2_eq_2)
  have led: "val st Led_o = val st (Cnt 2)" using st(4) by simp
  have "val st (Cnt 2) = bus_val Cnt 3 st div 4"
    unfolding v by (rule msb_of_three_bits [OF b])
  then have m: "val st Led_o = int k mod 8 div 4"
    using led st(3) by simp
  show "map_option (bus_val Cnt 3) (blinker_sim fuel 3 k) = Some (int k mod 8)"
    using st(1,3) by simp
  show "map_option (\<lambda>st. val st Led_o) (blinker_sim fuel 3 k) = Some (int k mod 8 div 4)"
    using st(1) m by simp
  show "map_option (\<lambda>st. val st Led_o) (blinker_sim fuel 3 k)
           = map_option (\<lambda>st. val st (Cnt 2)) (blinker_sim fuel 3 k)"
    using st(1) led by simp
qed

text \<open>
  Claim C4. The three-bit blinker of the source (\<^verbatim>\<open>blinker(clk, led, 3)\<close>), started with
  the counter at 0 and given at least five evaluation rounds to settle, shows the counter
  values 0, 1, ..., 7, 0, 1, ..., 7 over sixteen clock cycles and is back at 0 after the
  sixteenth rising edge; \<^verbatim>\<open>led_o\<close> is the most significant bit of the counter, so it
  toggles every four edges.
\<close>
theorem blinker_sequence:
  assumes "5 \<le> fuel"
  shows "map (\<lambda>k. map_option (bus_val Cnt 3) (blinker_sim fuel 3 k)) [0..<16]
           = map Some [0, 1, 2, 3, 4, 5, 6, 7, 0, 1, 2, 3, 4, 5, 6, 7]
       \<and> map_option (bus_val Cnt 3) (blinker_sim fuel 3 16) = Some 0
       \<and> map (\<lambda>k. map_option (\<lambda>st. val st Led_o) (blinker_sim fuel 3 k)) [0..<16]
           = map Some [0, 0, 0, 0, 1, 1, 1, 1, 0, 0, 0, 0, 1, 1, 1, 1]
       \<and> map_option (\<lambda>st. val st Led_o) (blinker_sim fuel 3 k)
           = map_option (\<lambda>st. val st (Cnt 2)) (blinker_sim fuel 3 k)"
proof (intro conjI)
  show "map (\<lambda>k. map_option (bus_val Cnt 3) (blinker_sim fuel 3 k)) [0..<16]
           = map Some [0, 1, 2, 3, 4, 5, 6, 7, 0, 1, 2, 3, 4, 5, 6, 7]"
    unfolding upt_16 by (simp add: blinker_three_bits(1) [OF assms])
  show "map_option (bus_val Cnt 3) (blinker_sim fuel 3 16) = Some 0"
    by (simp add: blinker_three_bits(1) [OF assms])
  show "map (\<lambda>k. map_option (\<lambda>st. val st Led_o) (blinker_sim fuel 3 k)) [0..<16]
           = map Some [0, 0, 0, 0, 1, 1, 1, 1, 0, 0, 0, 0, 1, 1, 1, 1]"
    unfolding upt_16 by (simp add: blinker_three_bits(2) [OF assms])
  show "map_option (\<lambda>st. val st Led_o) (blinker_sim fuel 3 k)
           = map_option (\<lambda>st. val st (Cnt 2)) (blinker_sim fuel 3 k)"
    by (rule blinker_three_bits(3) [OF assms])
qed

theorem blinker_sequence_witness:
  "map (\<lambda>k. map_option (bus_val Cnt 3) (blinker_sim 5 3 k)) [0..<16]
           = map Some [0, 1, 2, 3, 4, 5, 6, 7, 0, 1, 2, 3, 4, 5, 6, 7]
   \<and> map (\<lambda>k. map_option (\<lambda>st. val st Led_o) (blinker_sim 5 3 k)) [0..<16]
           = map Some [0, 0, 0, 0, 1, 1, 1, 1, 0, 0, 0, 0, 1, 1, 1, 1]"
proof -
  have h: "(5::nat) \<le> 5" by simp
  show ?thesis using blinker_sequence [OF h, of 0] by blast
qed

end
